theory Spec2Isabelle
  imports Main "HOL-Library.Char_ord" "HOL-Library.List_Lexorder" "HOL-Library.AList"
begin

text \<open>
  Two scrapers walk a paged listing, follow each link to its detail page and collect one
  row per page: the thin template (\<open>Thin Template (Selenium + Numeric Pager)/scraper.py\<close>)
  and the ICE facility scraper (\<open>ICE Facility Scraper/scraper.py\<close>). Both have the
  same loop; they differ in how the listing URL is built, how links are collected and how
  a detail page is read.

  The browser is outside the program. What it shows is a parameter of the model: a loaded
  page answers element queries, and loading a page gives the page or raises. Listing pages
  and detail pages are loaded by functions of the URL. The sleep of the template after
  loading a detail page belongs to loading it. The sleep of the ICE scraper after it has
  appended a row is inside the \<open>try\<close> block, so what it raises (\<open>time.sleep\<close> raises
  on a negative delay) is caught and reported like a failed scrape: its outcome is a
  parameter of the loop. The page delay is taken not to be negative, so that the sleep
  after a listing page does not raise. The other waits, the printed progress lines other
  than those kept in the trace, and the start and the end of the browser session have no
  part in what a run returns and are left out.
\<close>

section \<open>Strings\<close>

text \<open>
  Python strings are modelled as HOL strings; a character is read as a code point below
  256. Exceptions are values: an exception is represented by its message, and a call that
  may raise returns \<open>exn + 'a\<close> with \<open>Inl\<close> for the raise.
\<close>

type_synonym exn = string

text \<open>The characters for which Python's \<open>str.isspace\<close> (and the regex class \<open>\s\<close>) holds.\<close>

definition isspace :: "char \<Rightarrow> bool" where
  "isspace c = (c \<in> set [CHR 0x09, CHR 0x0A, CHR 0x0B, CHR 0x0C, CHR 0x0D,
                         CHR 0x1C, CHR 0x1D, CHR 0x1E, CHR 0x1F, CHR 0x20,
                         CHR 0x85, CHR 0xA0])"

text \<open>\<open>s.strip()\<close>: whitespace removed at both ends.\<close>

definition strip :: "string \<Rightarrow> string" where
  "strip s = rev (dropWhile isspace (rev (dropWhile isspace s)))"

text \<open>\<open>re.sub(r"\s+", " ", s)\<close>: every maximal run of whitespace becomes one space.\<close>

function sub_spaces :: "string \<Rightarrow> string" where
  "sub_spaces [] = []"
| "sub_spaces (c # cs) =
     (if isspace c then CHR '' '' # sub_spaces (dropWhile isspace cs)
      else c # sub_spaces cs)"
  by pat_completeness auto
termination
  by (relation "measure length") (auto simp: length_dropWhile_le less_Suc_eq_le)

text \<open>
  Template, lines 76 to 77: \<open>_normalize_space(s) = re.sub(r"\s+", " ", (s or "").strip())\<close>.
\<close>

definition normalize_space :: "string \<Rightarrow> string" where
  "normalize_space s = sub_spaces (strip s)"

text \<open>\<open>sub in s\<close> on strings, and \<open>s.split("?")[0]\<close>.\<close>

fun contains :: "string \<Rightarrow> string \<Rightarrow> bool" where
  "contains [] sub = (sub = [])"
| "contains (c # cs) sub = (take (length sub) (c # cs) = sub \<or> contains cs sub)"

definition before_query :: "string \<Rightarrow> string" where
  "before_query s = takeWhile (\<lambda>c. c \<noteq> CHR ''?'') s"

text \<open>
  The two library functions the scrapers call on strings are parameters of the model:
  \<open>re_search pattern text\<close> is \<open>m.group(0)\<close> of \<open>re.search(pattern, text)\<close>, or
  \<open>None\<close> when there is no match; \<open>urljoin base href\<close> is \<open>urllib.parse.urljoin\<close>,
  which may raise.
\<close>

record pylib =
  re_search :: "string \<Rightarrow> string \<Rightarrow> string option"
  urljoin :: "string \<Rightarrow> string \<Rightarrow> exn + string"

section \<open>The rendered page\<close>

text \<open>
  An element gives its visible text, its attributes (\<open>None\<close> when the attribute is
  absent) and the elements below it that match a CSS selector. A loaded document answers
  \<open>find_elements(by, value)\<close> with the matching elements in document order;
  \<open>find_element\<close> is the first of them and raises NoSuchElementException, here
  \<open>None\<close>, when there is none.
\<close>

datatype element =
  Element (el_text: string) (get_attribute: "string \<Rightarrow> string option")
          (find_elements_in: "string \<Rightarrow> element list")

datatype locator = CSS_SELECTOR string | TAG_NAME string

type_synonym page = "locator \<Rightarrow> element list"

definition find_element :: "page \<Rightarrow> locator \<Rightarrow> element option" where
  "find_element drv loc = (case drv loc of [] \<Rightarrow> None | el # _ \<Rightarrow> Some el)"

section \<open>Field extraction (thin template)\<close>

text \<open>
  \<open>_extract_with_specs\<close>, template lines 128 to 158. One entry of a field's extractor
  list is a dict that may hold the keys \<open>css\<close>, \<open>css_attr\<close> (a selector and an
  attribute name) and \<open>regex\<close>. Patterns are taken to compile, and an element query
  fails only by finding nothing.
\<close>

record spec =
  css :: "string option"
  css_attr :: "(string \<times> string) option"
  regex :: "string option"

text \<open>
  What one \<open>if "..." in spec:\<close> block of the loop body does: return from the function,
  \<open>continue\<close> with the next spec, or fall through to the next block.
\<close>

datatype flow = Return string | Continue | Fall_through

definition css_block :: "page \<Rightarrow> spec \<Rightarrow> flow" where
  "css_block drv sp =
     (case css sp of
        None \<Rightarrow> Fall_through
      | Some sel \<Rightarrow>
          (case find_element drv (CSS_SELECTOR sel) of
             None \<Rightarrow> Continue
           | Some el \<Rightarrow>
               (let val = normalize_space (el_text el)
                in if val \<noteq> [] then Return val else Fall_through)))"

definition css_attr_block :: "page \<Rightarrow> spec \<Rightarrow> flow" where
  "css_attr_block drv sp =
     (case css_attr sp of
        None \<Rightarrow> Fall_through
      | Some (sel, attr) \<Rightarrow>
          (case find_element drv (CSS_SELECTOR sel) of
             None \<Rightarrow> Continue
           | Some el \<Rightarrow>
               (let val = (case get_attribute el attr of None \<Rightarrow> [] | Some v \<Rightarrow> v);
                    val = normalize_space val
                in if val \<noteq> [] then Return val else Fall_through)))"

definition regex_block :: "pylib \<Rightarrow> string \<Rightarrow> spec \<Rightarrow> flow" where
  "regex_block L txt sp =
     (case regex sp of
        None \<Rightarrow> Fall_through
      | Some pat \<Rightarrow>
          (case re_search L pat txt of
             Some m \<Rightarrow> Return (normalize_space m)
           | None \<Rightarrow> Fall_through))"

definition spec_body :: "pylib \<Rightarrow> page \<Rightarrow> string \<Rightarrow> spec \<Rightarrow> flow" where
  "spec_body L drv txt sp =
     (case css_block drv sp of
        Fall_through \<Rightarrow>
          (case css_attr_block drv sp of
             Fall_through \<Rightarrow> regex_block L txt sp
           | r \<Rightarrow> r)
      | r \<Rightarrow> r)"

fun specs_loop :: "pylib \<Rightarrow> page \<Rightarrow> string \<Rightarrow> spec list \<Rightarrow> string" where
  "specs_loop L drv txt [] = []"
| "specs_loop L drv txt (sp # specs) =
     (case spec_body L drv txt sp of
        Return v \<Rightarrow> v
      | _ \<Rightarrow> specs_loop L drv txt specs)"

text \<open>The text of the body, or the empty string when the lookup raises.\<close>

definition body_text :: "page \<Rightarrow> string" where
  "body_text drv =
     (case find_element drv (TAG_NAME ''body'') of
        None \<Rightarrow> []
      | Some body \<Rightarrow> el_text body)"

definition extract_with_specs :: "pylib \<Rightarrow> page \<Rightarrow> spec list \<Rightarrow> string" where
  "extract_with_specs L drv specs = (let txt = body_text drv in specs_loop L drv txt specs)"

text \<open>
  The strategies of the specification, and the dict each one is written as in the
  configuration.
\<close>

datatype strategy =
  ElementText string
| ElementAttribute string string
| RegexOverPageText string

fun spec_of :: "strategy \<Rightarrow> spec" where
  "spec_of (ElementText sel) = \<lparr>css = Some sel, css_attr = None, regex = None\<rparr>"
| "spec_of (ElementAttribute sel attr) =
     \<lparr>css = None, css_attr = Some (sel, attr), regex = None\<rparr>"
| "spec_of (RegexOverPageText pat) = \<lparr>css = None, css_attr = None, regex = Some pat\<rparr>"

text \<open>The value one strategy yields on a page: the extractor run on that strategy alone.\<close>

definition strategy_value :: "pylib \<Rightarrow> page \<Rightarrow> strategy \<Rightarrow> string" where
  "strategy_value L drv st = extract_with_specs L drv [spec_of st]"

text \<open>
  The extractor of the specification: the value of the first strategy, in declared order,
  whose value is not empty, and the empty string when there is none.
\<close>

definition first_nonempty :: "pylib \<Rightarrow> page \<Rightarrow> strategy list \<Rightarrow> string" where
  "first_nonempty L drv sts =
     (case find (\<lambda>st. strategy_value L drv st \<noteq> []) sts of
        None \<Rightarrow> []
      | Some st \<Rightarrow> strategy_value L drv st)"

text \<open>A regex strategy whose pattern matches text that is empty once normalized.\<close>

definition blank_match :: "pylib \<Rightarrow> page \<Rightarrow> strategy \<Rightarrow> bool" where
  "blank_match L drv st =
     (case st of
        RegexOverPageText pat \<Rightarrow>
          (case re_search L pat (body_text drv) of
             Some m \<Rightarrow> normalize_space m = []
           | None \<Rightarrow> False)
      | _ \<Rightarrow> False)"

section \<open>Detail pages (thin template)\<close>

text \<open>
  \<open>scrape_detail\<close>, template lines 160 to 167. \<open>Row\<close> holds the dict \<open>data\<close>,
  kept as an association list in insertion order. \<open>load url\<close> stands for
  \<open>driver.get(url)\<close> followed by the wait for the body and by the sleep: it gives the
  rendered page or raises.
\<close>

record row =
  data :: "(string \<times> string) list"

definition scrape_detail ::
  "pylib \<Rightarrow> (string \<Rightarrow> exn + page) \<Rightarrow> string \<Rightarrow> (string \<times> spec list) list \<Rightarrow> exn + row" where
  "scrape_detail L load url field_specs =
     (case load url of
        Inl e \<Rightarrow> Inl e
      | Inr drv \<Rightarrow>
          Inr \<lparr>data = fold (\<lambda>(field_name, spec_list) d.
                              AList.update field_name (extract_with_specs L drv spec_list) d)
                           field_specs []\<rparr>)"

section \<open>Link collection\<close>

text \<open>\<open>_ensure_absolute\<close> and \<open>collect_links\<close>, template lines 89 to 93 and 119 to 126.\<close>

definition ensure_absolute :: "pylib \<Rightarrow> string \<Rightarrow> string \<Rightarrow> string" where
  "ensure_absolute L href base_url =
     (case urljoin L base_url href of Inr u \<Rightarrow> u | Inl e \<Rightarrow> href)"

text \<open>The hrefs \<open>collect_links\<close> adds for one selector, in document order.\<close>

definition links_of_selector :: "pylib \<Rightarrow> page \<Rightarrow> string \<Rightarrow> string \<Rightarrow> string list" where
  "links_of_selector L drv base_url sel =
     concat (map (\<lambda>a. case get_attribute a ''href'' of
                         None \<Rightarrow> []
                       | Some href \<Rightarrow>
                           if href \<noteq> [] then [ensure_absolute L href base_url] else [])
                 (drv (CSS_SELECTOR sel)))"

definition collect_links :: "pylib \<Rightarrow> page \<Rightarrow> string \<Rightarrow> string list \<Rightarrow> string list" where
  "collect_links L drv base_url selectors =
     sorted_list_of_set (set (concat (map (links_of_selector L drv base_url) selectors)))"

text \<open>
  \<open>collect_facility_links_on_current_page\<close>, ICE scraper lines 103 to 120. It looks
  inside the listing containers, or inside the body when there is no container; the lookup
  of the body raises when the document has none.
\<close>

definition ice_patterns :: "string list" where
  "ice_patterns = [''a[href*='/detention-facility/']'', ''a[href*='/detention-']'',
                   ''a[href*='/detain']'']"

definition ice_links_in :: "element \<Rightarrow> string \<Rightarrow> string list" where
  "ice_links_in c sel =
     concat (map (\<lambda>a. let href = before_query
                                    (case get_attribute a ''href'' of None \<Rightarrow> [] | Some v \<Rightarrow> v)
                       in if href \<noteq> [] \<and> contains href ''/detention'' then [href] else [])
                 (find_elements_in c sel))"

definition ice_containers :: "page \<Rightarrow> exn + element list" where
  "ice_containers drv =
     (let containers =
            drv (CSS_SELECTOR ''.view-detention-facilities .view-content, .view-content'')
      in if containers \<noteq> [] then Inr containers
         else (case find_element drv (TAG_NAME ''body'') of
                 None \<Rightarrow> Inl ''NoSuchElementException''
               | Some body \<Rightarrow> Inr [body]))"

definition collect_facility_links_on_current_page :: "page \<Rightarrow> exn + string list" where
  "collect_facility_links_on_current_page drv =
     (case ice_containers drv of
        Inl e \<Rightarrow> Inl e
      | Inr cs \<Rightarrow>
          Inr (sorted_list_of_set
                 (set (concat (map (\<lambda>c. concat (map (ice_links_in c) ice_patterns)) cs)))))"

text \<open>
  What the specification calls an absolute URL is read as a URL that begins with a scheme
  (a letter, then letters, digits, \<open>+\<close>, \<open>-\<close> or \<open>.\<close>, up to a colon). Neither program
  has such a test: the predicate is used only to state what holds of the links collected.
\<close>

definition isalpha :: "char \<Rightarrow> bool" where
  "isalpha c = (c \<in> set ''abcdefghijklmnopqrstuvwxyzABCDEFGHIJKLMNOPQRSTUVWXYZ'')"

definition scheme_char :: "char \<Rightarrow> bool" where
  "scheme_char c = (isalpha c \<or> c \<in> set ''0123456789+-.'')"

definition spec_is_absolute :: "string \<Rightarrow> bool" where
  "spec_is_absolute u =
     (let s = takeWhile (\<lambda>c. c \<noteq> CHR '':'') u
      in s \<noteq> [] \<and> length s < length u \<and> isalpha (hd s) \<and> list_all scheme_char s)"

section \<open>Listing URLs\<close>

text \<open>
  A URL is kept in the form the code works on: the six components of \<open>urlparse\<close>,
  with the query as the dict \<open>parse_qs\<close> makes of it (each key with its list of
  values, in insertion order). \<open>urlencode\<close> and \<open>urlunparse\<close> write that form
  back as text.
\<close>

record url =
  scheme :: string
  netloc :: string
  path :: string
  params :: string
  query :: "(string \<times> string list) list"
  fragment :: string

text \<open>\<open>str(n)\<close> for an integer.\<close>

definition digit_char :: "nat \<Rightarrow> char" where
  "digit_char d = ''0123456789'' ! d"

fun str_nat :: "nat \<Rightarrow> string" where
  "str_nat n = (if n < 10 then [digit_char n] else str_nat (n div 10) @ [digit_char (n mod 10)])"

declare str_nat.simps [simp del]

definition str_int :: "int \<Rightarrow> string" where
  "str_int i = (if i < 0 then CHR ''-'' # str_nat (nat (- i)) else str_nat (nat i))"

text \<open>\<open>_set_page\<close>, template lines 79 to 87.\<close>

definition set_page :: "url \<Rightarrow> string \<Rightarrow> int option \<Rightarrow> url" where
  "set_page u param page_num =
     (let q = query u;
          q = (case page_num of
                 None \<Rightarrow> AList.delete param q
               | Some n \<Rightarrow> AList.update param [str_int n] q)
      in u\<lparr>query := q\<rparr>)"

text \<open>
  \<open>_set_or_remove_page\<close>, ICE scraper lines 124 to 133: the same with the parameter name
  fixed.
\<close>

definition set_or_remove_page :: "url \<Rightarrow> int option \<Rightarrow> url" where
  "set_or_remove_page u page_num =
     (let q = query u;
          q = (case page_num of
                 None \<Rightarrow> AList.delete ''page'' q
               | Some n \<Rightarrow> AList.update ''page'' [str_int n] q)
      in u\<lparr>query := q\<rparr>)"

text \<open>
  The listing URL of page \<open>page_idx\<close>, as the head of the loop body computes it
  (template line 190, ICE scraper line 239).
\<close>

definition list_url :: "url \<Rightarrow> string \<Rightarrow> int \<Rightarrow> url" where
  "list_url start param page_idx =
     set_page start param (if page_idx = 0 then None else Some page_idx)"

definition ice_list_url :: "url \<Rightarrow> int \<Rightarrow> url" where
  "ice_list_url base page_idx =
     set_or_remove_page base (if page_idx = 0 then None else Some page_idx)"

section \<open>The crawl loop\<close>

text \<open>
  The loop of \<open>scrape_all\<close>: template lines 188 to 216, ICE scraper lines 237 to 275.
  The two loops are the same text up to the names of the three calls that are parameters
  here: building the listing URL, loading a listing page and collecting its links, and
  scraping a detail page.

  The state of a run is the list \<open>rows\<close>, the set \<open>seen\<close> and the trace of what the
  run did, in program order: each test of the loop condition with the value of
  \<open>page_idx\<close>, each listing page requested, each count of links printed, each link put
  into \<open>seen\<close>, each call of the detail scraper and each warning printed.
\<close>

datatype event =
  Cursor int
| Get_listing int url
| Found nat
| Seen_add string
| Scrape string
| Warn string exn

record 'row crawl =
  rows :: "'row list"
  seen :: "string set"
  trace :: "event list"

definition log :: "event \<Rightarrow> 'row crawl \<Rightarrow> 'row crawl" where
  "log ev st = st\<lparr>trace := trace st @ [ev]\<rparr>"

definition start_state :: "'row crawl" where
  "start_state = \<lparr>rows = [], seen = {}, trace = []\<rparr>"

text \<open>The guard \<open>limit and len(rows) >= limit\<close>: \<open>None\<close> and \<open>0\<close> are both false.\<close>

definition limit_hit :: "int option \<Rightarrow> 'row crawl \<Rightarrow> bool" where
  "limit_hit lim st =
     (case lim of None \<Rightarrow> False | Some l \<Rightarrow> l \<noteq> 0 \<and> l \<le> int (length (rows st)))"

text \<open>
  The part of the \<open>for\<close> body after the two guards: the link is put into \<open>seen\<close>, the
  detail scraper is called, and its row is appended or its exception is reported.
  \<open>pause\<close> is what the rest of the \<open>try\<close> block does after the row is appended:
  \<open>None\<close> when it goes through (the template has nothing there), \<open>Some e\<close> when it
  raises \<open>e\<close> (the sleep of the ICE scraper), which is reported for the link as well.
\<close>

definition visit ::
  "(string \<Rightarrow> exn + 'row) \<Rightarrow> exn option \<Rightarrow> string \<Rightarrow> 'row crawl \<Rightarrow> 'row crawl" where
  "visit scrape pause link st =
     (let st = log (Seen_add link) (st\<lparr>seen := insert link (seen st)\<rparr>);
          st = log (Scrape link) st
      in case scrape link of
           Inr r \<Rightarrow>
             (let st = st\<lparr>rows := rows st @ [r]\<rparr>
              in case pause of None \<Rightarrow> st | Some e \<Rightarrow> log (Warn link e) st)
         | Inl e \<Rightarrow> log (Warn link e) st)"

fun scrape_links ::
  "(string \<Rightarrow> exn + 'row) \<Rightarrow> exn option \<Rightarrow> int option \<Rightarrow> string list \<Rightarrow> 'row crawl
     \<Rightarrow> 'row crawl" where
  "scrape_links scrape pause lim [] st = st"
| "scrape_links scrape pause lim (link # links) st =
     (if limit_hit lim st then st
      else if link \<in> seen st then scrape_links scrape pause lim links st
      else scrape_links scrape pause lim links (visit scrape pause link st))"

text \<open>
  The ways the \<open>while\<close> loop ends: the \<open>break\<close> on a page without links, the loop
  condition turning false, the \<open>break\<close> on the limit, and an exception leaving the loop.
\<close>

datatype stop = Exhausted | Capped | Limit_reached | Raised exn

text \<open>
  One pass through the body of the \<open>while\<close> loop. \<open>fetch u\<close> stands for loading the
  listing page \<open>u\<close> and collecting its links; the result \<open>None\<close> means that the loop
  goes on with the next page.
\<close>

definition page_body ::
  "(int \<Rightarrow> url) \<Rightarrow> (url \<Rightarrow> exn + string list) \<Rightarrow> (string \<Rightarrow> exn + 'row) \<Rightarrow> exn option
     \<Rightarrow> int option \<Rightarrow> int \<Rightarrow> 'row crawl \<Rightarrow> stop option \<times> 'row crawl" where
  "page_body mk_url fetch scrape pause lim page_idx st =
     (let u = mk_url page_idx;
          st = log (Get_listing page_idx u) st
      in case fetch u of
           Inl e \<Rightarrow> (Some (Raised e), st)
         | Inr links \<Rightarrow>
             (let st = log (Found (length links)) st
              in if links = [] then (Some Exhausted, st)
                 else (let st = scrape_links scrape pause lim links st
                       in if limit_hit lim st then (Some Limit_reached, st)
                          else (None, st))))"

function scrape_pages ::
  "(int \<Rightarrow> url) \<Rightarrow> (url \<Rightarrow> exn + string list) \<Rightarrow> (string \<Rightarrow> exn + 'row) \<Rightarrow> exn option
     \<Rightarrow> int option \<Rightarrow> int \<Rightarrow> int \<Rightarrow> 'row crawl \<Rightarrow> stop \<times> 'row crawl" where
  "scrape_pages mk_url fetch scrape pause lim maxp page_idx st =
     (if page_idx < maxp then
        (case page_body mk_url fetch scrape pause lim page_idx (log (Cursor page_idx) st) of
           (Some s, st') \<Rightarrow> (s, st')
         | (None, st') \<Rightarrow> scrape_pages mk_url fetch scrape pause lim maxp (page_idx + 1) st')
      else (Capped, log (Cursor page_idx) st))"
  by pat_completeness auto
termination
  by (relation "measure (\<lambda>(mk_url, fetch, scrape, pause, lim, maxp, page_idx, st).
                            nat (maxp - page_idx))")
     auto

declare scrape_pages.simps [simp del]

section \<open>The two scrapers\<close>

text \<open>
  The thin template, \<open>scrape_all\<close> at lines 169 to 223, with its arguments as a
  record. \<open>get_listing u\<close> stands for \<open>driver.get(u)\<close> and the tolerant wait that
  follows, \<open>get_detail link\<close> for \<open>driver.get(link)\<close> and the wait for the body; each
  gives the rendered page or raises.
\<close>

record config =
  start_url :: url
  list_link_selectors :: "string list"
  field_specs :: "(string \<times> spec list) list"
  page_param :: string
  page_start :: int
  max_pages :: int
  limit :: "int option"

definition base_for_links :: "url \<Rightarrow> string" where
  "base_for_links parts = scheme parts @ ''://'' @ netloc parts"

definition fetch_links ::
  "pylib \<Rightarrow> (url \<Rightarrow> exn + page) \<Rightarrow> config \<Rightarrow> url \<Rightarrow> exn + string list" where
  "fetch_links L get_listing cfg u =
     (case get_listing u of
        Inl e \<Rightarrow> Inl e
      | Inr drv \<Rightarrow>
          Inr (collect_links L drv (base_for_links (start_url cfg)) (list_link_selectors cfg)))"

definition scrape_row ::
  "pylib \<Rightarrow> (string \<Rightarrow> exn + page) \<Rightarrow> config \<Rightarrow> string \<Rightarrow> exn + row" where
  "scrape_row L get_detail cfg link = scrape_detail L get_detail link (field_specs cfg)"

definition scrape_all_run ::
  "pylib \<Rightarrow> (url \<Rightarrow> exn + page) \<Rightarrow> (string \<Rightarrow> exn + page) \<Rightarrow> config \<Rightarrow> stop \<times> row crawl" where
  "scrape_all_run L get_listing get_detail cfg =
     scrape_pages (list_url (start_url cfg) (page_param cfg))
                  (fetch_links L get_listing cfg)
                  (scrape_row L get_detail cfg) None
                  (limit cfg) (max_pages cfg) (page_start cfg) start_state"

text \<open>What the caller gets: the rows, or the exception that left the loop.\<close>

definition returned :: "stop \<times> 'row crawl \<Rightarrow> exn + 'row list" where
  "returned r = (case fst r of Raised e \<Rightarrow> Inl e | _ \<Rightarrow> Inr (rows (snd r)))"

definition scrape_all ::
  "pylib \<Rightarrow> (url \<Rightarrow> exn + page) \<Rightarrow> (string \<Rightarrow> exn + page) \<Rightarrow> config \<Rightarrow> exn + row list" where
  "scrape_all L get_listing get_detail cfg = returned (scrape_all_run L get_listing get_detail cfg)"

text \<open>
  The ICE scraper, \<open>scrape_all\<close> at lines 223 to 282. \<open>opened\<close> stands for loading
  the start page, waiting for its body and clicking Apply: it gives \<open>drv.current_url\<close>
  or raises. The page extractor \<open>extract_facility_page\<close>, with its regular expressions,
  is a parameter: what is proved of the loop holds for any extractor. \<open>slept\<close> is the
  outcome of \<open>time.sleep(per_facility_delay)\<close>, the same after each row of a run.
\<close>

record facility_row =
  facility_name :: string
  field_office_name :: string
  facility_address :: string
  state :: string
  facility_phone :: string
  facility_email :: string
  field_office_phone :: string

definition ice_fetch_links :: "(url \<Rightarrow> exn + page) \<Rightarrow> url \<Rightarrow> exn + string list" where
  "ice_fetch_links get_listing u =
     (case get_listing u of
        Inl e \<Rightarrow> Inl e
      | Inr drv \<Rightarrow> collect_facility_links_on_current_page drv)"

definition ice_scrape_all_run ::
  "exn + url \<Rightarrow> (url \<Rightarrow> exn + page) \<Rightarrow> (string \<Rightarrow> exn + facility_row) \<Rightarrow> exn option
     \<Rightarrow> int option \<Rightarrow> int \<Rightarrow> stop \<times> facility_row crawl" where
  "ice_scrape_all_run opened get_listing extract_facility_page slept lim maxp =
     (case opened of
        Inl e \<Rightarrow> (Raised e, start_state)
      | Inr current_url \<Rightarrow>
          (let base = set_or_remove_page current_url None
           in scrape_pages (ice_list_url base) (ice_fetch_links get_listing)
                           extract_facility_page slept lim maxp 0 start_state))"

definition ice_scrape_all ::
  "exn + url \<Rightarrow> (url \<Rightarrow> exn + page) \<Rightarrow> (string \<Rightarrow> exn + facility_row) \<Rightarrow> exn option
     \<Rightarrow> int option \<Rightarrow> int \<Rightarrow> exn + facility_row list" where
  "ice_scrape_all opened get_listing extract_facility_page slept lim maxp =
     returned (ice_scrape_all_run opened get_listing extract_facility_page slept lim maxp)"

section \<open>Reading a trace\<close>

text \<open>
  The links the detail scraper was called on, the values \<open>page_idx\<close> had at the tests of
  the loop condition, the indices of the listing pages requested, and the warnings, each
  in the order of the run.
\<close>

definition scraped :: "event list \<Rightarrow> string list" where
  "scraped tr = concat (map (\<lambda>ev. case ev of Scrape l \<Rightarrow> [l] | _ \<Rightarrow> []) tr)"

definition cursors :: "event list \<Rightarrow> int list" where
  "cursors tr = concat (map (\<lambda>ev. case ev of Cursor i \<Rightarrow> [i] | _ \<Rightarrow> []) tr)"

definition listed :: "event list \<Rightarrow> int list" where
  "listed tr = concat (map (\<lambda>ev. case ev of Get_listing i u \<Rightarrow> [i] | _ \<Rightarrow> []) tr)"

definition requested :: "event list \<Rightarrow> (int \<times> url) list" where
  "requested tr = concat (map (\<lambda>ev. case ev of Get_listing i u \<Rightarrow> [(i, u)] | _ \<Rightarrow> []) tr)"

definition warned :: "event list \<Rightarrow> (string \<times> exn) list" where
  "warned tr = concat (map (\<lambda>ev. case ev of Warn l e \<Rightarrow> [(l, e)] | _ \<Rightarrow> []) tr)"

definition added :: "event list \<Rightarrow> string list" where
  "added tr = concat (map (\<lambda>ev. case ev of Seen_add l \<Rightarrow> [l] | _ \<Rightarrow> []) tr)"

text \<open>
  \<open>marked_before S tr\<close>: every call of the detail scraper in \<open>tr\<close> is on a link that is
  in \<open>S\<close> or was put into \<open>seen\<close> earlier in \<open>tr\<close>.
\<close>

fun marked_before :: "string set \<Rightarrow> event list \<Rightarrow> bool" where
  "marked_before S [] = True"
| "marked_before S (ev # evs) =
     (case ev of
        Seen_add l \<Rightarrow> marked_before (insert l S) evs
      | Scrape l \<Rightarrow> l \<in> S \<and> marked_before S evs
      | _ \<Rightarrow> marked_before S evs)"

text \<open>The rows of the links whose scrape returns, and the links whose scrape raises.\<close>

definition records_of :: "(string \<Rightarrow> exn + 'row) \<Rightarrow> string list \<Rightarrow> 'row list" where
  "records_of scrape ls = concat (map (\<lambda>l. case scrape l of Inr r \<Rightarrow> [r] | Inl e \<Rightarrow> []) ls)"

definition failures_of :: "(string \<Rightarrow> exn + 'row) \<Rightarrow> string list \<Rightarrow> (string \<times> exn) list" where
  "failures_of scrape ls =
     concat (map (\<lambda>l. case scrape l of Inr r \<Rightarrow> [] | Inl e \<Rightarrow> [(l, e)]) ls)"

text \<open>
  The warnings a run prints for the links \<open>ls\<close>: one for each link whose scrape raises,
  and, when the sleep inside the \<open>try\<close> block raises, one for each link whose scrape
  returns.
\<close>

definition warnings_of ::
  "(string \<Rightarrow> exn + 'row) \<Rightarrow> exn option \<Rightarrow> string list \<Rightarrow> (string \<times> exn) list" where
  "warnings_of scrape pause ls =
     concat (map (\<lambda>l. case scrape l of
                         Inr r \<Rightarrow> (case pause of None \<Rightarrow> [] | Some e \<Rightarrow> [(l, e)])
                       | Inl e \<Rightarrow> [(l, e)]) ls)"

text \<open>
  The links of the listing pages, page after page from \<open>page_idx\<close>, up to the first page
  that has none (or cannot be loaded) and below the page cap; and the new links among a
  list of links: those not in \<open>S\<close>, each at its first occurrence.
\<close>

function page_links :: "(int \<Rightarrow> url) \<Rightarrow> (url \<Rightarrow> exn + string list) \<Rightarrow> int \<Rightarrow> int \<Rightarrow> string list" where
  "page_links mk_url fetch maxp page_idx =
     (if page_idx < maxp then
        (case fetch (mk_url page_idx) of
           Inl e \<Rightarrow> []
         | Inr links \<Rightarrow>
             if links = [] then [] else links @ page_links mk_url fetch maxp (page_idx + 1))
      else [])"
  by pat_completeness auto
termination
  by (relation "measure (\<lambda>(mk_url, fetch, maxp, page_idx). nat (maxp - page_idx))") auto

declare page_links.simps [simp del]

fun fresh :: "string set \<Rightarrow> string list \<Rightarrow> string list" where
  "fresh S [] = []"
| "fresh S (l # ls) = (if l \<in> S then fresh S ls else l # fresh (insert l S) ls)"

text \<open>
  How many more rows the limit allows when there are \<open>n\<close> rows (\<open>None\<close>: any
  number); and the links the detail scraper is called on among the new links \<open>ls\<close>
  when \<open>room\<close> more rows are allowed: link after link until the rows are full, where a
  link whose scrape raises takes no room.
\<close>

definition room :: "int option \<Rightarrow> nat \<Rightarrow> nat option" where
  "room lim n =
     (case lim of None \<Rightarrow> None | Some l \<Rightarrow> if l = 0 then None else Some (nat l - n))"

fun attempted :: "(string \<Rightarrow> exn + 'row) \<Rightarrow> nat option \<Rightarrow> string list \<Rightarrow> string list" where
  "attempted scrape rm [] = []"
| "attempted scrape rm (l # ls) =
     (if rm = Some 0 then []
      else l # attempted scrape
                 (case scrape l of Inl e \<Rightarrow> rm | Inr r \<Rightarrow> map_option (\<lambda>n. n - 1) rm) ls)"

definition room_after :: "(string \<Rightarrow> exn + 'row) \<Rightarrow> nat option \<Rightarrow> string list \<Rightarrow> nat option" where
  "room_after scrape rm v = map_option (\<lambda>n. n - length (records_of scrape v)) rm"

text \<open>The first rows that fit into the room.\<close>

definition first_rows :: "nat option \<Rightarrow> 'row list \<Rightarrow> 'row list" where
  "first_rows rm rs = (case rm of None \<Rightarrow> rs | Some n \<Rightarrow> take n rs)"

text \<open>All detail links on the listing pages of the site, for each scraper.\<close>

definition site_links :: "pylib \<Rightarrow> (url \<Rightarrow> exn + page) \<Rightarrow> config \<Rightarrow> string list" where
  "site_links L get_listing cfg =
     page_links (list_url (start_url cfg) (page_param cfg)) (fetch_links L get_listing cfg)
                (max_pages cfg) (page_start cfg)"

definition ice_site_links :: "(url \<Rightarrow> exn + page) \<Rightarrow> url \<Rightarrow> int \<Rightarrow> string list" where
  "ice_site_links get_listing current_url maxp =
     page_links (ice_list_url (set_or_remove_page current_url None))
                (ice_fetch_links get_listing) maxp 0"

text \<open>Whether a listing page loads and has at least one link.\<close>

definition has_links :: "(url \<Rightarrow> exn + string list) \<Rightarrow> url \<Rightarrow> bool" where
  "has_links fetch u = (case fetch u of Inr (l # ls) \<Rightarrow> True | _ \<Rightarrow> False)"

section \<open>Properties of a run\<close>

text \<open>
  Each link is put into \<open>seen\<close> before the detail scraper is called on it, the detail
  scraper is called at most once on a link, and \<open>seen\<close> holds the links it was
  called on.
\<close>

definition visits_once :: "stop \<times> 'row crawl \<Rightarrow> bool" where
  "visits_once r =
     (marked_before {} (trace (snd r)) \<and>
      distinct (scraped (trace (snd r))) \<and>
      added (trace (snd r)) = scraped (trace (snd r)) \<and>
      seen (snd r) = set (scraped (trace (snd r))))"

text \<open>
  The detail scraper is called on the new links of the site, in their order, until the
  rows are full: a link whose scrape raises does not end the run and takes no room. The
  rows are those of the links whose scrape returned, in the order of the calls, so they
  are the first rows, as many as the limit allows, that the new links of the site give.
  The warnings name each link whose scrape raised, with the exception. So each link the
  detail scraper was called on has either its warning or its row, and without a limit so
  has each link of the site. An exception that ends the run was raised by loading a
  listing page; and when no listing page raises, the run returns its rows.
\<close>

definition isolates ::
  "(url \<Rightarrow> exn + string list) \<Rightarrow> (string \<Rightarrow> exn + 'row) \<Rightarrow> exn option \<Rightarrow> int option
     \<Rightarrow> string list \<Rightarrow> stop \<times> 'row crawl \<Rightarrow> bool" where
  "isolates fetch scrape pause lim links r =
     (scraped (trace (snd r)) = attempted scrape (room lim 0) (fresh {} links) \<and>
      rows (snd r) = records_of scrape (scraped (trace (snd r))) \<and>
      rows (snd r) = first_rows (room lim 0) (records_of scrape (fresh {} links)) \<and>
      warned (trace (snd r)) = warnings_of scrape pause (scraped (trace (snd r))) \<and>
      (pause = None \<longrightarrow>
         warned (trace (snd r)) = failures_of scrape (scraped (trace (snd r)))) \<and>
      (\<forall>l\<in>set (scraped (trace (snd r))).
         case scrape l of
           Inl e \<Rightarrow> (l, e) \<in> set (warned (trace (snd r)))
         | Inr x \<Rightarrow> x \<in> set (rows (snd r))) \<and>
      (lim = None \<or> lim = Some 0 \<longrightarrow>
         scraped (trace (snd r)) = fresh {} links \<and>
         (\<forall>l\<in>set links.
            case scrape l of
              Inl e \<Rightarrow> (l, e) \<in> set (warned (trace (snd r)))
            | Inr x \<Rightarrow> x \<in> set (rows (snd r)))) \<and>
      (\<forall>e. fst r = Raised e \<longrightarrow> (\<exists>u. fetch u = Inl e)) \<and>
      ((\<forall>u e. fetch u \<noteq> Inl e) \<longrightarrow>
         returned r = Inr (first_rows (room lim 0) (records_of scrape (fresh {} links)))))"

text \<open>
  A requested listing page without links is the last page requested, and ends the run as
  \<open>Exhausted\<close>; a run ends so only there.
\<close>

definition exhausts ::
  "(int \<Rightarrow> url) \<Rightarrow> (url \<Rightarrow> exn + string list) \<Rightarrow> stop \<times> 'row crawl \<Rightarrow> bool" where
  "exhausts mk_url fetch r =
     ((\<forall>i\<in>set (listed (trace (snd r))).
         fetch (mk_url i) = Inr [] \<longrightarrow>
           fst r = Exhausted \<and> last (listed (trace (snd r))) = i \<and>
           (\<forall>j\<in>set (listed (trace (snd r))). j \<le> i)) \<and>
      (fst r = Exhausted \<longrightarrow>
         listed (trace (snd r)) \<noteq> [] \<and> fetch (mk_url (last (listed (trace (snd r))))) = Inr []))"

text \<open>
  The values of \<open>page_idx\<close> at the loop tests go up one by one from the start index; they
  stay at or below the page cap when the start index does; every page requested has an
  index from the start index up to below the cap; the run ends as \<open>Capped\<close> exactly when
  the last loop test finds \<open>page_idx\<close> at or above the cap; and when every page from the
  start index up to the cap has links, the run ends as \<open>Capped\<close>, or on the item limit
  when there is one.
\<close>

definition cursor_bounded ::
  "(int \<Rightarrow> url) \<Rightarrow> (url \<Rightarrow> exn + string list) \<Rightarrow> int option \<Rightarrow> int \<Rightarrow> int
     \<Rightarrow> stop \<times> 'row crawl \<Rightarrow> bool" where
  "cursor_bounded mk_url fetch lim start maxp r =
     (cursors (trace (snd r)) \<noteq> [] \<and>
      cursors (trace (snd r)) = [start..last (cursors (trace (snd r)))] \<and>
      sorted (cursors (trace (snd r))) \<and>
      (start \<le> maxp \<longrightarrow> (\<forall>c\<in>set (cursors (trace (snd r))). c \<le> maxp)) \<and>
      (\<forall>i\<in>set (listed (trace (snd r))). start \<le> i \<and> i < maxp) \<and>
      (fst r = Capped) = (maxp \<le> last (cursors (trace (snd r)))) \<and>
      ((\<forall>i\<in>set [start..maxp - 1]. has_links fetch (mk_url i)) \<longrightarrow>
         (fst r = Capped \<or> fst r = Limit_reached) \<and>
         (lim = None \<or> lim = Some 0 \<longrightarrow> fst r = Capped)))"

text \<open>
  The item limit \<open>L\<close>: the run never has more than \<open>L\<close> rows; and when the site has
  more than \<open>L\<close> different links and the scrape of none of the first \<open>L\<close> new links
  raises, the run ends on the limit with \<open>L\<close> rows, those of the first \<open>L\<close> new links,
  which are the only links the detail scraper is called on.
\<close>

definition respects_limit ::
  "int \<Rightarrow> string list \<Rightarrow> (string \<Rightarrow> exn + 'row) \<Rightarrow> stop \<times> 'row crawl \<Rightarrow> bool" where
  "respects_limit L links scrape r =
     (length (rows (snd r)) \<le> nat L \<and>
      (nat L < card (set links) \<and>
       (\<forall>l\<in>set (take (nat L) (fresh {} links)). \<exists>x. scrape l = Inr x) \<longrightarrow>
         fst r = Limit_reached \<and>
         length (rows (snd r)) = nat L \<and>
         scraped (trace (snd r)) = take (nat L) (fresh {} links) \<and>
         rows (snd r) = records_of scrape (take (nat L) (fresh {} links)) \<and>
         fresh {} links ! nat L \<notin> set (scraped (trace (snd r)))))"

text \<open>For the proofs: how a part of a run changes the state, and where the loop ends.\<close>

definition grows ::
  "(string \<Rightarrow> exn + 'row) \<Rightarrow> exn option \<Rightarrow> 'row crawl \<Rightarrow> 'row crawl \<Rightarrow> string list
     \<Rightarrow> bool" where
  "grows scrape pause st st' v =
     (rows st' = rows st @ records_of scrape v \<and>
      seen st' = seen st \<union> set v \<and>
      scraped (trace st') = scraped (trace st) @ v \<and>
      added (trace st') = added (trace st) @ v \<and>
      warned (trace st') = warned (trace st) @ warnings_of scrape pause v)"

definition request :: "(int \<Rightarrow> url) \<Rightarrow> int \<Rightarrow> 'row crawl \<Rightarrow> 'row crawl" where
  "request mk_url i st = log (Get_listing i (mk_url i)) (log (Cursor i) st)"

definition ends_at ::
  "(int \<Rightarrow> url) \<Rightarrow> (url \<Rightarrow> exn + string list) \<Rightarrow> int option \<Rightarrow> int \<Rightarrow> int \<Rightarrow> 'row crawl
     \<Rightarrow> stop \<times> 'row crawl \<Rightarrow> int \<Rightarrow> bool" where
  "ends_at mk_url fetch lim maxp idx st r c =
     (idx \<le> c \<and> (c \<le> maxp \<or> c = idx) \<and>
      cursors (trace (snd r)) = cursors (trace st) @ [idx..c] \<and>
      requested (trace (snd r)) =
        requested (trace st) @
        map (\<lambda>i. (i, mk_url i)) [idx..(if fst r = Capped then c - 1 else c)] \<and>
      (fst r = Capped) = (maxp \<le> c) \<and>
      (\<forall>i. idx \<le> i \<and> i < c \<longrightarrow> (\<exists>ls. fetch (mk_url i) = Inr ls \<and> ls \<noteq> [])) \<and>
      (case fst r of
         Capped \<Rightarrow> True
       | Exhausted \<Rightarrow> fetch (mk_url c) = Inr []
       | Raised e \<Rightarrow> fetch (mk_url c) = Inl e
       | Limit_reached \<Rightarrow>
           limit_hit lim (snd r) \<and> (\<exists>ls. fetch (mk_url c) = Inr ls \<and> ls \<noteq> [])))"

section \<open>A small site\<close>

text \<open>
  A site to run the scrapers on: two listing pages that share one link, a third page
  without links, and detail pages of which those in \<open>bad\<close> cannot be loaded. The regex
  search looks for the pattern as a literal, as \<open>re.search\<close> does for a pattern without
  special characters; the join puts a relative href after the base.
\<close>

definition find_literal :: "string \<Rightarrow> string \<Rightarrow> string option" where
  "find_literal pat txt = (if contains txt pat then Some pat else None)"

definition demo_lib :: pylib where
  "demo_lib = \<lparr>re_search = find_literal,
               urljoin = (\<lambda>base href. Inr (if take 4 href = ''http'' then href
                                             else base @ href))\<rparr>"

text \<open>
  A library whose join raises on an href with a bracket that is not closed, as
  \<open>urljoin('https://ex.com', '//[bad/x')\<close> raises \<open>ValueError\<close>.
\<close>

definition strict_lib :: pylib where
  "strict_lib = \<lparr>re_search = find_literal,
                 urljoin = (\<lambda>base href. if CHR ''['' \<in> set href \<and> CHR '']'' \<notin> set href
                                        then Inl ''ValueError''
                                        else Inr (if take 4 href = ''http'' then href
                                                  else base @ href))\<rparr>"

definition anchor :: "string option \<Rightarrow> element" where
  "anchor href = Element [] (\<lambda>name. if name = ''href'' then href else None) (\<lambda>sel. [])"

definition demo_start :: url where
  "demo_start = \<lparr>scheme = ''https'', netloc = ''ex.com'', path = ''/list'', params = [],
                 query = [], fragment = []\<rparr>"

definition demo_page0 :: page where
  "demo_page0 loc =
     (if loc = CSS_SELECTOR ''a.item'' then
        [anchor (Some ''/b''), anchor (Some ''/a''), anchor None, anchor (Some []),
         anchor (Some ''/s'')]
      else if loc = CSS_SELECTOR ''a.more'' then [anchor (Some ''/a'')]
      else [])"

definition demo_page1 :: page where
  "demo_page1 loc =
     (if loc = CSS_SELECTOR ''a.item'' then
        [anchor (Some ''/s''), anchor (Some ''/d''), anchor (Some ''/c'')]
      else [])"

definition demo_listing :: "url \<Rightarrow> exn + page" where
  "demo_listing u =
     (case map_of (query u) ''page'' of
        None \<Rightarrow> Inr demo_page0
      | Some v \<Rightarrow> if v = [''1''] then Inr demo_page1 else Inr (\<lambda>loc. []))"

definition demo_detail_page :: "string \<Rightarrow> page" where
  "demo_detail_page link loc =
     (if loc = CSS_SELECTOR ''h1'' then
        [Element ('' Item  '' @ link @ '' '') (\<lambda>name. None) (\<lambda>sel. [])]
      else if loc = TAG_NAME ''body'' then
        [Element (''Item '' @ link @ '' tel 555'') (\<lambda>name. None) (\<lambda>sel. [])]
      else [])"

definition demo_detail :: "string list \<Rightarrow> string \<Rightarrow> exn + page" where
  "demo_detail bad link =
     (if link \<in> set bad then Inl ''TimeoutException'' else Inr (demo_detail_page link))"

definition demo_cfg :: config where
  "demo_cfg = \<lparr>start_url = demo_start,
               list_link_selectors = [''a.more'', ''a.item''],
               field_specs =
                 [(''Title'', [spec_of (ElementText ''.title''), spec_of (ElementText ''h1'')]),
                  (''Phone'', [spec_of (RegexOverPageText ''555'')])],
               page_param = ''page'', page_start = 0, max_pages = 200, limit = None\<rparr>"

text \<open>The same site as the ICE scraper sees it: the links sit in a listing container.\<close>

definition demo_container :: "string list \<Rightarrow> element" where
  "demo_container hrefs =
     Element [] (\<lambda>name. None)
       (\<lambda>sel. if sel = ''a[href*='/detention-facility/']'' then map (\<lambda>h. anchor (Some h)) hrefs
               else [])"

definition demo_ice_listing :: "url \<Rightarrow> exn + page" where
  "demo_ice_listing u =
     (case map_of (query u) ''page'' of
        None \<Rightarrow>
          Inr (\<lambda>loc. if loc = CSS_SELECTOR
                                 ''.view-detention-facilities .view-content, .view-content''
                      then [demo_container [''https://ice.gov/detention-facility/b?x=1'',
                                            ''https://ice.gov/detention-facility/a'', ''https://ice.gov/about'']]
                      else [])
      | Some v \<Rightarrow>
          if v = [''1'']
          then Inr (\<lambda>loc. if loc = TAG_NAME ''body''
                           then [demo_container [''https://ice.gov/detention-facility/a'',
                                                 ''https://ice.gov/detention-facility/c'']]
                           else [])
          else Inr (\<lambda>loc. if loc = TAG_NAME ''body'' then [demo_container []] else []))"

text \<open>A listing page whose anchors have hrefs that are not absolute.\<close>

definition bad_href_page :: page where
  "bad_href_page loc =
     (if loc = CSS_SELECTOR ''a.item'' then [anchor (Some ''//[bad/x''), anchor (Some ''/a'')]
      else if loc = TAG_NAME ''body'' then
        [Element [] (\<lambda>name. None)
           (\<lambda>sel. if sel = ''a[href*='/detention-facility/']''
                   then [anchor (Some ''/detention-facility/a?x=1'')] else [])]
      else [])"

definition demo_extract :: "string list \<Rightarrow> string \<Rightarrow> exn + facility_row" where
  "demo_extract bad link =
     (if link \<in> set bad then Inl ''TimeoutException''
      else Inr \<lparr>facility_name = link, field_office_name = [], facility_address = [],
                state = [], facility_phone = [], facility_email = [],
                field_office_phone = []\<rparr>)"

section \<open>Lemmas on traces and on the loop\<close>

lemma log_simps [simp]:
  "trace (log ev st) = trace st @ [ev]" "rows (log ev st) = rows st" "seen (log ev st) = seen st"
  by (simp_all add: log_def)

lemma scraped_simps [simp]:
  "scraped [] = []" "scraped (a @ b) = scraped a @ scraped b"
  "scraped (ev # tr) = (case ev of Scrape l \<Rightarrow> [l] | _ \<Rightarrow> []) @ scraped tr"
  by (simp_all add: scraped_def)

lemma cursors_simps [simp]:
  "cursors [] = []" "cursors (a @ b) = cursors a @ cursors b"
  "cursors (ev # tr) = (case ev of Cursor i \<Rightarrow> [i] | _ \<Rightarrow> []) @ cursors tr"
  by (simp_all add: cursors_def)

lemma listed_simps [simp]:
  "listed [] = []" "listed (a @ b) = listed a @ listed b"
  "listed (ev # tr) = (case ev of Get_listing i u \<Rightarrow> [i] | _ \<Rightarrow> []) @ listed tr"
  by (simp_all add: listed_def)

lemma requested_simps [simp]:
  "requested [] = []" "requested (a @ b) = requested a @ requested b"
  "requested (ev # tr) = (case ev of Get_listing i u \<Rightarrow> [(i, u)] | _ \<Rightarrow> []) @ requested tr"
  by (simp_all add: requested_def)

lemma warned_simps [simp]:
  "warned [] = []" "warned (a @ b) = warned a @ warned b"
  "warned (ev # tr) = (case ev of Warn l e \<Rightarrow> [(l, e)] | _ \<Rightarrow> []) @ warned tr"
  by (simp_all add: warned_def)

lemma added_simps [simp]:
  "added [] = []" "added (a @ b) = added a @ added b"
  "added (ev # tr) = (case ev of Seen_add l \<Rightarrow> [l] | _ \<Rightarrow> []) @ added tr"
  by (simp_all add: added_def)

lemma records_of_simps [simp]:
  "records_of scrape [] = []" "records_of scrape (a @ b) = records_of scrape a @ records_of scrape b"
  "records_of scrape (l # ls) = (case scrape l of Inr r \<Rightarrow> [r] | Inl e \<Rightarrow> []) @ records_of scrape ls"
  by (simp_all add: records_of_def)

lemma failures_of_simps [simp]:
  "failures_of scrape [] = []"
  "failures_of scrape (a @ b) = failures_of scrape a @ failures_of scrape b"
  "failures_of scrape (l # ls) = (case scrape l of Inr r \<Rightarrow> [] | Inl e \<Rightarrow> [(l, e)]) @ failures_of scrape ls"
  by (simp_all add: failures_of_def)

lemma warnings_of_simps [simp]:
  "warnings_of scrape pause [] = []"
  "warnings_of scrape pause (a @ b) = warnings_of scrape pause a @ warnings_of scrape pause b"
  "warnings_of scrape pause (l # ls) =
     (case scrape l of
        Inr r \<Rightarrow> (case pause of None \<Rightarrow> [] | Some e \<Rightarrow> [(l, e)])
      | Inl e \<Rightarrow> [(l, e)]) @ warnings_of scrape pause ls"
  by (simp_all add: warnings_of_def)

lemma warnings_of_None: "warnings_of scrape None ls = failures_of scrape ls"
  by (induction ls) (auto split: sum.splits)

lemma marked_before_append:
  "marked_before S (a @ b) = (marked_before S a \<and> marked_before (S \<union> set (added a)) b)"
  by (induction a arbitrary: S) (auto split: event.splits)

lemma fresh_set: "set (fresh S ls) = set ls - S"
  by (induction ls arbitrary: S) auto

lemma fresh_distinct: "distinct (fresh S ls)"
  by (induction ls arbitrary: S) (auto simp: fresh_set)

lemma fresh_append: "fresh S (a @ b) = fresh S a @ fresh (S \<union> set a) b"
  by (induction a arbitrary: S) (auto simp: insert_absorb)

lemma fresh_length: "length (fresh {} ls) = card (set ls)"
  using fresh_distinct[of "{}" ls] fresh_set[of "{}" ls] by (metis Diff_empty distinct_card)

subsection \<open>One link\<close>

lemma grows_refl: "grows scrape pause st st []"
  by (simp add: grows_def)

lemma grows_trans:
  "grows scrape pause st st1 v1 \<Longrightarrow> grows scrape pause st1 st2 v2 \<Longrightarrow> grows scrape pause st st2 (v1 @ v2)"
  by (auto simp: grows_def)

lemma grows_visit: "grows scrape pause st (visit scrape pause l st) [l]"
  by (auto simp: grows_def visit_def Let_def split: sum.splits option.splits)

lemma visit_marked:
  "marked_before S (trace st) \<Longrightarrow> marked_before S (trace (visit scrape pause l st))"
  by (auto simp: visit_def Let_def marked_before_append split: sum.splits option.splits)

lemma visit_cursors [simp]:
  "cursors (trace (visit scrape pause l st)) = cursors (trace st)"
  "requested (trace (visit scrape pause l st)) = requested (trace st)"
  "listed (trace (visit scrape pause l st)) = listed (trace st)"
  by (auto simp: visit_def Let_def split: sum.splits option.splits)

subsection \<open>The links of a page\<close>

lemma scrape_links_cursors [simp]:
  "cursors (trace (scrape_links scrape pause lim links st)) = cursors (trace st)"
  "requested (trace (scrape_links scrape pause lim links st)) = requested (trace st)"
  "listed (trace (scrape_links scrape pause lim links st)) = listed (trace st)"
  by (induction links arbitrary: st) auto

lemma scrape_links_marked:
  "marked_before S (trace st) \<Longrightarrow> marked_before S (trace (scrape_links scrape pause lim links st))"
  by (induction links arbitrary: st) (auto simp: visit_marked)

lemma scrape_links_shape:
  "\<exists>k. grows scrape pause st (scrape_links scrape pause lim links st) (take k (fresh (seen st) links)) \<and>
       (limit_hit lim (scrape_links scrape pause lim links st) \<or> take k (fresh (seen st) links) = fresh (seen st) links)"
proof (induction links arbitrary: st)
  case Nil
  show ?case by (simp add: grows_refl)
next
  case (Cons link links)
  show ?case
  proof (cases "limit_hit lim st")
    case True
    then have "grows scrape pause st (scrape_links scrape pause lim (link # links) st) (take 0 (fresh (seen st) (link # links)))
       \<and> limit_hit lim (scrape_links scrape pause lim (link # links) st)"
      by (simp add: grows_refl)
    then show ?thesis by blast
  next
    case nohit: False
    show ?thesis
    proof (cases "link \<in> seen st")
      case True
      with nohit Cons.IH[of st] show ?thesis by simp
    next
      case False
      let ?st1 = "visit scrape pause link st"
      from Cons.IH[of ?st1] obtain k where
        k: "grows scrape pause ?st1 (scrape_links scrape pause lim links ?st1) (take k (fresh (seen ?st1) links))"
          "limit_hit lim (scrape_links scrape pause lim links ?st1) \<or> take k (fresh (seen ?st1) links) = fresh (seen ?st1) links"
        by blast
      have s1: "seen ?st1 = insert link (seen st)"
        using grows_visit[of scrape pause st link] by (simp add: grows_def)
      have "grows scrape pause st (scrape_links scrape pause lim links ?st1) ([link] @ take k (fresh (seen ?st1) links))"
        using grows_trans[OF grows_visit k(1)] .
      then have "grows scrape pause st (scrape_links scrape pause lim (link # links) st) (take (Suc k) (fresh (seen st) (link # links)))"
        using nohit False s1 by simp
      moreover have "limit_hit lim (scrape_links scrape pause lim (link # links) st) \<or>
          take (Suc k) (fresh (seen st) (link # links)) = fresh (seen st) (link # links)"
        using k(2) nohit False s1 by auto
      ultimately show ?thesis by blast
    qed
  qed
qed

subsection \<open>The pages\<close>

lemma scrape_pages_induct [case_names capped raised empty limit continue]:
  assumes capped: "\<And>idx st. \<not> idx < maxp \<Longrightarrow> P idx st (Capped, log (Cursor idx) st)"
    and raised: "\<And>idx st e. idx < maxp \<Longrightarrow> fetch (mk_url idx) = Inl e \<Longrightarrow>
                   P idx st (Raised e, request mk_url idx st)"
    and empty: "\<And>idx st. idx < maxp \<Longrightarrow> fetch (mk_url idx) = Inr [] \<Longrightarrow>
                   P idx st (Exhausted, log (Found 0) (request mk_url idx st))"
    and limit: "\<And>idx st ls st2. idx < maxp \<Longrightarrow> fetch (mk_url idx) = Inr ls \<Longrightarrow> ls \<noteq> [] \<Longrightarrow>
                   st2 = scrape_links scrape pause lim ls (log (Found (length ls)) (request mk_url idx st)) \<Longrightarrow>
                   limit_hit lim st2 \<Longrightarrow> P idx st (Limit_reached, st2)"
    and continue: "\<And>idx st ls st2 r. idx < maxp \<Longrightarrow> fetch (mk_url idx) = Inr ls \<Longrightarrow> ls \<noteq> [] \<Longrightarrow>
                   st2 = scrape_links scrape pause lim ls (log (Found (length ls)) (request mk_url idx st)) \<Longrightarrow>
                   \<not> limit_hit lim st2 \<Longrightarrow> P (idx + 1) st2 r \<Longrightarrow> P idx st r"
  shows "P idx st (scrape_pages mk_url fetch scrape pause lim maxp idx st)"
  using assms
proof (induction mk_url fetch scrape pause lim maxp idx st rule: scrape_pages.induct)
  case (1 mk_url fetch scrape pause lim maxp idx st)
  note rules = "1.prems"
  show ?case
  proof (cases "idx < maxp")
    case False
    then show ?thesis using rules(1)[of idx st] by (simp add: scrape_pages.simps)
  next
    case lt: True
    show ?thesis
    proof (cases "fetch (mk_url idx)")
      case (Inl e)
      with lt rules(2)[of idx e st] show ?thesis
        by (simp add: scrape_pages.simps[of _ _ _ _ _ _ idx] page_body_def request_def)
    next
      case (Inr ls)
      show ?thesis
      proof (cases "ls = []")
        case True
        with lt Inr rules(3)[of idx st] show ?thesis
          by (simp add: scrape_pages.simps[of _ _ _ _ _ _ idx] page_body_def request_def)
      next
        case ne: False
        define st2 where "st2 = scrape_links scrape pause lim ls (log (Found (length ls)) (request mk_url idx st))"
        show ?thesis
        proof (cases "limit_hit lim st2")
          case True
          with lt Inr ne rules(4)[of idx ls st2 st] st2_def show ?thesis
            by (simp add: scrape_pages.simps[of _ _ _ _ _ _ idx] page_body_def request_def)
        next
          case False
          have pb: "page_body mk_url fetch scrape pause lim idx (log (Cursor idx) st) = (None, st2)"
            using Inr ne False st2_def by (simp add: page_body_def request_def)
          have step: "scrape_pages mk_url fetch scrape pause lim maxp idx st =
                      scrape_pages mk_url fetch scrape pause lim maxp (idx + 1) st2"
            using lt pb by (simp add: scrape_pages.simps[of _ _ _ _ _ _ idx])
          have "P (idx + 1) st2 (scrape_pages mk_url fetch scrape pause lim maxp (idx + 1) st2)"
            using "1.IH"[OF lt pb[symmetric] refl] rules by blast
          then show ?thesis
            using rules(5)[OF lt Inr ne st2_def False] step by simp
        qed
      qed
    qed
  qed
qed

lemma page_links_unfold:
  "idx < maxp \<Longrightarrow> fetch (mk_url idx) = Inr ls \<Longrightarrow> ls \<noteq> [] \<Longrightarrow>
     page_links mk_url fetch maxp idx = ls @ page_links mk_url fetch maxp (idx + 1)"
  by (simp add: page_links.simps[of _ _ _ idx])

lemma page_links_stop:
  "\<not> idx < maxp \<Longrightarrow> page_links mk_url fetch maxp idx = []"
  "fetch (mk_url idx) = Inl e \<Longrightarrow> page_links mk_url fetch maxp idx = []"
  "fetch (mk_url idx) = Inr [] \<Longrightarrow> page_links mk_url fetch maxp idx = []"
  by (simp_all add: page_links.simps[of _ _ _ idx])

lemma request_simps [simp]:
  "trace (request mk_url i st) = trace st @ [Cursor i, Get_listing i (mk_url i)]"
  "rows (request mk_url i st) = rows st" "seen (request mk_url i st) = seen st"
  by (simp_all add: request_def)

lemma scrape_pages_marked:
  "marked_before S (trace st) \<longrightarrow>
     marked_before S (trace (snd (scrape_pages mk_url fetch scrape pause lim maxp idx st)))"
proof (induction idx st rule: scrape_pages_induct[where scrape = scrape and pause = pause and lim = lim])
  case (limit idx st ls st2)
  then show ?case by (auto simp: marked_before_append intro!: scrape_links_marked)
next
  case (continue idx st ls st2 r)
  then show ?case by (auto simp: marked_before_append intro!: scrape_links_marked)
qed (auto simp: marked_before_append)

lemma scrape_pages_shape:
  "\<exists>k. grows scrape pause st (snd (scrape_pages mk_url fetch scrape pause lim maxp idx st))
         (take k (fresh (seen st) (page_links mk_url fetch maxp idx)))"
proof (induction idx st rule: scrape_pages_induct[where scrape = scrape and pause = pause and lim = lim])
  case (capped idx st)
  then show ?case by (auto simp: grows_def page_links_stop)
next
  case (raised idx st e)
  then show ?case by (auto simp: grows_def page_links_stop)
next
  case (empty idx st)
  then show ?case by (auto simp: grows_def page_links_stop)
next
  case (limit idx st ls st2)
  let ?st1 = "log (Found (length ls)) (request mk_url idx st)"
  have g1: "grows scrape pause st ?st1 []" by (simp add: grows_def)
  from scrape_links_shape[of scrape pause ?st1 lim ls] limit(4) obtain k where
    k: "grows scrape pause ?st1 st2 (take k (fresh (seen st) ls))" by auto
  have "take k (fresh (seen st) ls) = take (min k (length (fresh (seen st) ls)))
          (fresh (seen st) (page_links mk_url fetch maxp idx))"
    using page_links_unfold[of idx maxp fetch mk_url ls] limit(1,2,3)
    by (auto simp: fresh_append min_def)
  with grows_trans[OF g1 k] show ?case by (metis append_Nil snd_conv)
next
  case (continue idx st ls st2 r)
  let ?st1 = "log (Found (length ls)) (request mk_url idx st)"
  let ?F1 = "fresh (seen st) ls"
  have g1: "grows scrape pause st ?st1 []" by (simp add: grows_def)
  from scrape_links_shape[of scrape pause ?st1 lim ls] continue(4,5) have
    g2: "grows scrape pause ?st1 st2 ?F1" by auto
  then have s2: "seen st2 = seen st \<union> set ls" by (auto simp: grows_def fresh_set)
  from continue(6) s2 obtain k where
    k: "grows scrape pause st2 (snd r) (take k (fresh (seen st \<union> set ls) (page_links mk_url fetch maxp (idx + 1))))"
    by auto
  have "?F1 @ take k (fresh (seen st \<union> set ls) (page_links mk_url fetch maxp (idx + 1)))
        = take (length ?F1 + k) (fresh (seen st) (page_links mk_url fetch maxp idx))"
    using page_links_unfold[of idx maxp fetch mk_url ls] continue(1,2,3) by (simp add: fresh_append)
  with grows_trans[OF grows_trans[OF g1 g2] k] show ?case by (metis append_Nil)
qed

subsection \<open>Where the cursor goes\<close>

lemma listed_requested: "listed tr = map fst (requested tr)"
  by (induction tr) (auto split: event.splits)

lemma scrape_pages_ends:
  "\<exists>c. ends_at mk_url fetch lim maxp idx st (scrape_pages mk_url fetch scrape pause lim maxp idx st) c"
proof (induction idx st rule: scrape_pages_induct[where scrape = scrape and pause = pause and lim = lim])
  case (capped idx st)
  then have "ends_at mk_url fetch lim maxp idx st (Capped, log (Cursor idx) st) idx"
    by (auto simp: ends_at_def)
  then show ?case by blast
next
  case (raised idx st e)
  then have "ends_at mk_url fetch lim maxp idx st (Raised e, request mk_url idx st) idx"
    by (auto simp: ends_at_def)
  then show ?case by blast
next
  case (empty idx st)
  then have "ends_at mk_url fetch lim maxp idx st (Exhausted, log (Found 0) (request mk_url idx st)) idx"
    by (auto simp: ends_at_def)
  then show ?case by blast
next
  case (limit idx st ls st2)
  then have "ends_at mk_url fetch lim maxp idx st (Limit_reached, st2) idx"
    by (auto simp: ends_at_def)
  then show ?case by blast
next
  case (continue idx st ls st2 r)
  then obtain c where c: "ends_at mk_url fetch lim maxp (idx + 1) st2 r c" by blast
  have tr2: "cursors (trace st2) = cursors (trace st) @ [idx]"
      "requested (trace st2) = requested (trace st) @ [(idx, mk_url idx)]"
    using continue(4) by simp_all
  have le: "idx + 1 \<le> c" "c \<le> maxp" using c continue(1) by (auto simp: ends_at_def)
  have u1: "[idx..c] = idx # [idx + 1..c]" using le by (simp add: upto_rec1)
  have u2: "[idx..(if fst r = Capped then c - 1 else c)] =
            idx # [idx + 1..(if fst r = Capped then c - 1 else c)]"
    using le by (simp add: upto_rec1)
  have pages: "\<forall>i. idx \<le> i \<and> i < c \<longrightarrow> (\<exists>ls. fetch (mk_url i) = Inr ls \<and> ls \<noteq> [])"
  proof (intro allI impI)
    fix i assume i: "idx \<le> i \<and> i < c"
    show "\<exists>ls. fetch (mk_url i) = Inr ls \<and> ls \<noteq> []"
    proof (cases "i = idx")
      case True
      with continue(2,3) show ?thesis by simp
    next
      case False
      with i have "idx + 1 \<le> i \<and> i < c" by simp
      with c show ?thesis by (simp add: ends_at_def)
    qed
  qed
  have "ends_at mk_url fetch lim maxp idx st r c"
    unfolding ends_at_def
  proof (intro conjI)
    show "idx \<le> c" using le by simp
    show "c \<le> maxp \<or> c = idx" using le by simp
    show "cursors (trace (snd r)) = cursors (trace st) @ [idx..c]"
      using c tr2 u1 by (simp add: ends_at_def)
    show "requested (trace (snd r)) = requested (trace st) @
            map (\<lambda>i. (i, mk_url i)) [idx..(if fst r = Capped then c - 1 else c)]"
      using c tr2 by (simp only: u2) (simp add: ends_at_def)
    show "(fst r = Capped) = (maxp \<le> c)" using c by (simp add: ends_at_def)
    show "\<forall>i. idx \<le> i \<and> i < c \<longrightarrow> (\<exists>ls. fetch (mk_url i) = Inr ls \<and> ls \<noteq> [])"
      using pages .
    show "case fst r of
         Capped \<Rightarrow> True
       | Exhausted \<Rightarrow> fetch (mk_url c) = Inr []
       | Raised e \<Rightarrow> fetch (mk_url c) = Inl e
       | Limit_reached \<Rightarrow> limit_hit lim (snd r) \<and> (\<exists>ls. fetch (mk_url c) = Inr ls \<and> ls \<noteq> [])"
      using c by (simp add: ends_at_def)
  qed
  then show ?case by blast
qed

subsection \<open>The limit\<close>

lemma limit_zero: "limit_hit (Some 0) st = limit_hit None st"
  by (simp add: limit_hit_def)

lemma scrape_links_zero: "scrape_links scrape pause (Some 0) links st = scrape_links scrape pause None links st"
  by (induction links arbitrary: st) (simp_all add: limit_zero)

lemma scrape_pages_zero:
  "scrape_pages mk_url fetch scrape pause (Some 0) maxp idx st =
   scrape_pages mk_url fetch scrape pause None maxp idx st"
proof -
  have "scrape_pages mk_url fetch scrape pause (Some 0) maxp idx st =
        scrape_pages mk_url fetch scrape pause None maxp idx st"
  proof (induction idx st rule: scrape_pages_induct[where scrape = scrape and pause = pause and lim = None
         and P = "\<lambda>idx st r. scrape_pages mk_url fetch scrape pause (Some 0) maxp idx st = r"])
    case (capped idx st)
    then show ?case by (simp add: scrape_pages.simps)
  next
    case (raised idx st e)
    then show ?case by (simp add: scrape_pages.simps[of _ _ _ _ _ _ idx] page_body_def request_def)
  next
    case (empty idx st)
    then show ?case by (simp add: scrape_pages.simps[of _ _ _ _ _ _ idx] page_body_def request_def)
  next
    case (limit idx st ls st2)
    then show ?case by (simp add: limit_hit_def)
  next
    case (continue idx st ls st2 r)
    then show ?case
      by (simp add: scrape_pages.simps[of _ _ _ _ "Some 0" _ idx] page_body_def request_def
                    scrape_links_zero limit_zero)
  qed
  then show ?thesis .
qed

lemma visit_rows_length: "length (rows (visit scrape pause l st)) \<le> Suc (length (rows st))"
  using grows_visit[of scrape pause st l] by (auto simp: grows_def split: sum.splits)

lemma scrape_links_cap:
  "0 < L \<Longrightarrow> length (rows st) \<le> nat L \<Longrightarrow>
     length (rows (scrape_links scrape pause (Some L) links st)) \<le> nat L"
proof (induction links arbitrary: st)
  case Nil
  then show ?case by simp
next
  case (Cons link links)
  show ?case
  proof (cases "limit_hit (Some L) st \<or> link \<in> seen st")
    case True
    with Cons show ?thesis by auto
  next
    case False
    then have "length (rows st) < nat L" using Cons.prems by (auto simp: limit_hit_def)
    with visit_rows_length[of scrape pause link st]
    have "length (rows (visit scrape pause link st)) \<le> nat L" by simp
    with Cons.IH[OF Cons.prems(1) this] False show ?thesis by simp
  qed
qed

lemma scrape_pages_cap:
  "0 < L \<longrightarrow> length (rows st) \<le> nat L \<longrightarrow>
     length (rows (snd (scrape_pages mk_url fetch scrape pause (Some L) maxp idx st))) \<le> nat L"
proof (induction idx st rule: scrape_pages_induct[where scrape = scrape and pause = pause and lim = "Some L"])
  case (limit idx st ls st2)
  then show ?case using scrape_links_cap[of L _ scrape pause ls] by simp
next
  case (continue idx st ls st2 r)
  then show ?case using scrape_links_cap[of L _ scrape pause ls] by simp
qed simp_all

lemma records_of_length:
  "\<forall>l\<in>set v. \<exists>x. scrape l = Inr x \<Longrightarrow> length (records_of scrape v) = length v"
  by (induction v) auto

lemma scrape_links_limited:
  assumes "L \<noteq> 0"
    and "\<forall>l\<in>set (take (nat L - length (rows st)) (fresh (seen st) links)). \<exists>x. scrape l = Inr x"
  shows "grows scrape pause st (scrape_links scrape pause (Some L) links st)
           (take (nat L - length (rows st)) (fresh (seen st) links))"
  using assms(2)
proof (induction links arbitrary: st)
  case Nil
  show ?case by (simp add: grows_refl)
next
  case (Cons link links)
  show ?case
  proof (cases "limit_hit (Some L) st")
    case True
    then have "nat L - length (rows st) = 0" by (auto simp: limit_hit_def)
    with True show ?thesis by (simp add: grows_refl)
  next
    case nohit: False
    show ?thesis
    proof (cases "link \<in> seen st")
      case True
      with nohit Cons show ?thesis by simp
    next
      case False
      let ?st1 = "visit scrape pause link st"
      let ?room = "nat L - length (rows st)"
      have room: "0 < ?room" using nohit assms(1) by (auto simp: limit_hit_def)
      then obtain m where m: "?room = Suc m" by (cases ?room) auto
      have tk: "take ?room (fresh (seen st) (link # links)) =
                link # take m (fresh (insert link (seen st)) links)"
        using False m by simp
      with Cons.prems obtain x where x: "scrape link = Inr x" by auto
      have v: "grows scrape pause st ?st1 [link]" by (rule grows_visit)
      then have r1: "rows ?st1 = rows st @ [x]" and s1: "seen ?st1 = insert link (seen st)"
        using x by (auto simp: grows_def)
      have room1: "nat L - length (rows ?st1) = m" using r1 m by simp
      have "\<forall>l\<in>set (take (nat L - length (rows ?st1)) (fresh (seen ?st1) links)). \<exists>x. scrape l = Inr x"
        using Cons.prems tk room1 s1 by simp
      from Cons.IH[OF this]
      have "grows scrape pause ?st1 (scrape_links scrape pause (Some L) links ?st1)
              (take m (fresh (insert link (seen st)) links))"
        using room1 s1 by simp
      from grows_trans[OF v this] show ?thesis
        using nohit False tk by simp
    qed
  qed
qed

lemma scrape_pages_limited:
  assumes L: "L \<noteq> 0"
  shows "(\<forall>l\<in>set (take (nat L - length (rows st)) (fresh (seen st) (page_links mk_url fetch maxp idx))).
            \<exists>x. scrape l = Inr x) \<longrightarrow>
         grows scrape pause st (snd (scrape_pages mk_url fetch scrape pause (Some L) maxp idx st))
           (take (nat L - length (rows st)) (fresh (seen st) (page_links mk_url fetch maxp idx))) \<and>
         (0 < nat L - length (rows st) \<and>
          nat L - length (rows st) \<le> length (fresh (seen st) (page_links mk_url fetch maxp idx)) \<longrightarrow>
            fst (scrape_pages mk_url fetch scrape pause (Some L) maxp idx st) = Limit_reached)"
proof (induction idx st rule: scrape_pages_induct[where scrape = scrape and pause = pause and lim = "Some L"])
  case (capped idx st)
  then show ?case by (simp add: page_links_stop grows_def)
next
  case (raised idx st e)
  then show ?case by (simp add: page_links_stop grows_def)
next
  case (empty idx st)
  then show ?case by (simp add: page_links_stop grows_def)
next
  case (limit idx st ls st2)
  let ?st1 = "log (Found (length ls)) (request mk_url idx st)"
  let ?room = "nat L - length (rows st)"
  let ?F1 = "fresh (seen st) ls"
  let ?F2 = "fresh (seen st \<union> set ls) (page_links mk_url fetch maxp (idx + 1))"
  have F: "fresh (seen st) (page_links mk_url fetch maxp idx) = ?F1 @ ?F2"
    using page_links_unfold[of idx maxp fetch mk_url ls] limit(1,2,3) by (simp add: fresh_append)
  show ?case
  proof (intro impI)
    assume ok: "\<forall>l\<in>set (take ?room (fresh (seen st) (page_links mk_url fetch maxp idx))). \<exists>x. scrape l = Inr x"
    then have ok1: "\<forall>l\<in>set (take ?room ?F1). \<exists>x. scrape l = Inr x" by (simp add: F)
    have g1: "grows scrape pause st ?st1 []" by (simp add: grows_def)
    have g2: "grows scrape pause ?st1 st2 (take ?room ?F1)"
      using scrape_links_limited[OF L, of ?st1 ls scrape pause] ok1 limit(4) by simp
    have len2: "length (rows st2) = length (rows st) + length (take ?room ?F1)"
      using g2 records_of_length[OF ok1] by (simp add: grows_def)
    have "?room \<le> length ?F1" using limit(5) len2 by (auto simp: limit_hit_def)
    then have tk: "take ?room (fresh (seen st) (page_links mk_url fetch maxp idx)) = take ?room ?F1"
      by (simp add: F)
    have "grows scrape pause st st2 (take ?room ?F1)" using grows_trans[OF g1 g2] by simp
    then have "grows scrape pause st st2 (take ?room (fresh (seen st) (page_links mk_url fetch maxp idx)))"
      by (simp only: tk)
    then
    show "grows scrape pause st (snd (Limit_reached, st2))
           (take ?room (fresh (seen st) (page_links mk_url fetch maxp idx))) \<and>
          (0 < ?room \<and> ?room \<le> length (fresh (seen st) (page_links mk_url fetch maxp idx)) \<longrightarrow>
            fst (Limit_reached, st2) = Limit_reached)"
      by simp
  qed
next
  case (continue idx st ls st2 r)
  let ?st1 = "log (Found (length ls)) (request mk_url idx st)"
  let ?room = "nat L - length (rows st)"
  let ?F1 = "fresh (seen st) ls"
  let ?F2 = "fresh (seen st \<union> set ls) (page_links mk_url fetch maxp (idx + 1))"
  have F: "fresh (seen st) (page_links mk_url fetch maxp idx) = ?F1 @ ?F2"
    using page_links_unfold[of idx maxp fetch mk_url ls] continue(1,2,3) by (simp add: fresh_append)
  show ?case
  proof (intro impI)
    assume ok: "\<forall>l\<in>set (take ?room (fresh (seen st) (page_links mk_url fetch maxp idx))). \<exists>x. scrape l = Inr x"
    then have ok1: "\<forall>l\<in>set (take ?room ?F1). \<exists>x. scrape l = Inr x" by (simp add: F)
    have g1: "grows scrape pause st ?st1 []" by (simp add: grows_def)
    have g2: "grows scrape pause ?st1 st2 (take ?room ?F1)"
      using scrape_links_limited[OF L, of ?st1 ls scrape pause] ok1 continue(4) by simp
    have len2: "length (rows st2) = length (rows st) + length (take ?room ?F1)"
      using g2 records_of_length[OF ok1] by (simp add: grows_def)
    have short: "length ?F1 < ?room" using continue(5) len2 L by (auto simp: limit_hit_def)
    then have all1: "take ?room ?F1 = ?F1" by simp
    have seen2: "seen st2 = seen st \<union> set ls" using g2 all1 by (auto simp: grows_def fresh_set)
    have room2: "nat L - length (rows st2) = ?room - length ?F1" using len2 all1 by simp
    have tk: "take ?room (?F1 @ ?F2) = ?F1 @ take (?room - length ?F1) ?F2" using short by simp
    have ok2: "\<forall>l\<in>set (take (nat L - length (rows st2))
                 (fresh (seen st2) (page_links mk_url fetch maxp (idx + 1)))). \<exists>x. scrape l = Inr x"
      using ok F tk room2 seen2 by simp
    with continue(6) have
      g3: "grows scrape pause st2 (snd r) (take (?room - length ?F1) ?F2)" and
      lim3: "0 < ?room - length ?F1 \<and> ?room - length ?F1 \<le> length ?F2 \<longrightarrow> fst r = Limit_reached"
      using room2 seen2 by simp_all
    have "grows scrape pause st (snd r) (?F1 @ take (?room - length ?F1) ?F2)"
      using grows_trans[OF grows_trans[OF g1 g2] g3] all1 by simp
    moreover have "0 < ?room \<and> ?room \<le> length (?F1 @ ?F2) \<longrightarrow> fst r = Limit_reached"
      using lim3 short by auto
    ultimately
    show "grows scrape pause st (snd r) (take ?room (fresh (seen st) (page_links mk_url fetch maxp idx))) \<and>
          (0 < ?room \<and> ?room \<le> length (fresh (seen st) (page_links mk_url fetch maxp idx)) \<longrightarrow>
            fst r = Limit_reached)"
      by (simp only: F tk)
  qed
qed

subsection \<open>Which links are scraped\<close>

lemma limit_hit_room: "limit_hit lim st = (room lim (length (rows st)) = Some 0)"
  by (auto simp: limit_hit_def room_def split: option.splits)

lemma attempted_zero [simp]: "attempted scrape (Some 0) ls = []"
  by (cases ls) simp_all

lemma room_after_Nil [simp]: "room_after scrape rm [] = rm"
  by (cases rm) (simp_all add: room_after_def)

lemma room_after_Cons:
  "room_after scrape rm (l # v) =
     room_after scrape (case scrape l of Inl e \<Rightarrow> rm | Inr r \<Rightarrow> map_option (\<lambda>n. n - 1) rm) v"
  by (cases rm) (auto simp: room_after_def split: sum.splits)

lemma room_grows:
  "grows scrape pause st st' v \<Longrightarrow>
     room lim (length (rows st')) = room_after scrape (room lim (length (rows st))) v"
  by (auto simp: grows_def room_def room_after_def split: option.splits)

lemma attempted_append:
  "attempted scrape rm (a @ b) =
     attempted scrape rm a @ attempted scrape (room_after scrape rm (attempted scrape rm a)) b"
proof (induction a arbitrary: rm)
  case Nil
  show ?case by simp
next
  case (Cons l a)
  show ?case
  proof (cases "rm = Some 0")
    case True
    then show ?thesis by simp
  next
    case False
    then show ?thesis using Cons.IH by (simp add: room_after_Cons)
  qed
qed

lemma attempted_all:
  "room_after scrape rm (attempted scrape rm a) \<noteq> Some 0 \<Longrightarrow> attempted scrape rm a = a"
proof (induction a arbitrary: rm)
  case Nil
  show ?case by simp
next
  case (Cons l a)
  show ?case
  proof (cases "rm = Some 0")
    case True
    with Cons.prems show ?thesis by simp
  next
    case False
    with Cons.prems Cons.IH show ?thesis by (simp add: room_after_Cons)
  qed
qed

lemma attempted_None [simp]: "attempted scrape None ls = ls"
  by (induction ls) (auto split: sum.splits)

lemma records_attempted:
  "records_of scrape (attempted scrape rm ls) = first_rows rm (records_of scrape ls)"
proof (induction ls arbitrary: rm)
  case Nil
  show ?case by (simp add: first_rows_def split: option.splits)
next
  case (Cons l ls)
  show ?case
  proof (cases rm)
    case None
    then show ?thesis by (simp add: first_rows_def del: attempted.simps)
  next
    case (Some n)
    show ?thesis
    proof (cases n)
      case 0
      with Some show ?thesis by (simp add: first_rows_def)
    next
      case (Suc m)
      with Some Cons.IH[of "Some (Suc m)"] Cons.IH[of "Some m"] show ?thesis
        by (auto simp: first_rows_def split: sum.splits)
    qed
  qed
qed

lemma scrape_links_exact:
  "grows scrape pause st (scrape_links scrape pause lim links st)
     (attempted scrape (room lim (length (rows st))) (fresh (seen st) links))"
proof (induction links arbitrary: st)
  case Nil
  show ?case by (simp add: grows_refl)
next
  case (Cons link links)
  show ?case
  proof (cases "limit_hit lim st")
    case True
    then show ?thesis by (simp add: limit_hit_room grows_refl)
  next
    case nohit: False
    show ?thesis
    proof (cases "link \<in> seen st")
      case True
      with nohit Cons.IH[of st] show ?thesis by simp
    next
      case False
      let ?st1 = "visit scrape pause link st"
      have v: "grows scrape pause st ?st1 [link]" by (rule grows_visit)
      then have s1: "seen ?st1 = insert link (seen st)" by (simp add: grows_def)
      have r1: "room lim (length (rows ?st1)) =
                (case scrape link of
                   Inl e \<Rightarrow> room lim (length (rows st))
                 | Inr r \<Rightarrow> map_option (\<lambda>n. n - 1) (room lim (length (rows st))))"
        using room_grows[OF v, of lim] by (simp add: room_after_Cons split: sum.splits)
      have "grows scrape pause st (scrape_links scrape pause lim links ?st1)
              ([link] @ attempted scrape (room lim (length (rows ?st1))) (fresh (seen ?st1) links))"
        using grows_trans[OF v Cons.IH[of ?st1]] .
      then show ?thesis
        using nohit False by (simp add: limit_hit_room s1 r1)
    qed
  qed
qed

lemma scrape_pages_exact:
  "grows scrape pause st (snd (scrape_pages mk_url fetch scrape pause lim maxp idx st))
     (attempted scrape (room lim (length (rows st)))
        (fresh (seen st) (page_links mk_url fetch maxp idx)))"
proof (induction idx st rule: scrape_pages_induct[where scrape = scrape and pause = pause and lim = lim])
  case (capped idx st)
  then show ?case by (simp add: page_links_stop grows_def)
next
  case (raised idx st e)
  then show ?case by (simp add: page_links_stop grows_def)
next
  case (empty idx st)
  then show ?case by (simp add: page_links_stop grows_def)
next
  case (limit idx st ls st2)
  let ?st1 = "log (Found (length ls)) (request mk_url idx st)"
  let ?rm = "room lim (length (rows st))"
  let ?F1 = "fresh (seen st) ls"
  let ?F2 = "fresh (seen st \<union> set ls) (page_links mk_url fetch maxp (idx + 1))"
  have F: "fresh (seen st) (page_links mk_url fetch maxp idx) = ?F1 @ ?F2"
    using page_links_unfold[of idx maxp fetch mk_url ls] limit(1,2,3) by (simp add: fresh_append)
  have g1: "grows scrape pause st ?st1 []" by (simp add: grows_def)
  have g2: "grows scrape pause ?st1 st2 (attempted scrape ?rm ?F1)"
    using scrape_links_exact[of scrape pause ?st1 lim ls] limit(4) by simp
  have g: "grows scrape pause st st2 (attempted scrape ?rm ?F1)"
    using grows_trans[OF g1 g2] by simp
  have "room_after scrape ?rm (attempted scrape ?rm ?F1) = Some 0"
    using room_grows[OF g, of lim] limit(5) by (simp add: limit_hit_room)
  then have "attempted scrape ?rm (?F1 @ ?F2) = attempted scrape ?rm ?F1"
    by (simp add: attempted_append)
  with g show ?case by (simp only: F snd_conv)
next
  case (continue idx st ls st2 r)
  let ?st1 = "log (Found (length ls)) (request mk_url idx st)"
  let ?rm = "room lim (length (rows st))"
  let ?F1 = "fresh (seen st) ls"
  let ?F2 = "fresh (seen st \<union> set ls) (page_links mk_url fetch maxp (idx + 1))"
  have F: "fresh (seen st) (page_links mk_url fetch maxp idx) = ?F1 @ ?F2"
    using page_links_unfold[of idx maxp fetch mk_url ls] continue(1,2,3) by (simp add: fresh_append)
  have g1: "grows scrape pause st ?st1 []" by (simp add: grows_def)
  have g2: "grows scrape pause ?st1 st2 (attempted scrape ?rm ?F1)"
    using scrape_links_exact[of scrape pause ?st1 lim ls] continue(4) by simp
  have g: "grows scrape pause st st2 (attempted scrape ?rm ?F1)"
    using grows_trans[OF g1 g2] by simp
  have rm2: "room lim (length (rows st2)) = room_after scrape ?rm (attempted scrape ?rm ?F1)"
    using room_grows[OF g, of lim] .
  then have "room_after scrape ?rm (attempted scrape ?rm ?F1) \<noteq> Some 0"
    using continue(5) by (simp add: limit_hit_room)
  then have all1: "attempted scrape ?rm ?F1 = ?F1" by (rule attempted_all)
  have seen2: "seen st2 = seen st \<union> set ls" using g all1 by (auto simp: grows_def fresh_set)
  have g3: "grows scrape pause st2 (snd r)
              (attempted scrape (room_after scrape ?rm (attempted scrape ?rm ?F1)) ?F2)"
    using continue(6) by (simp only: rm2 seen2)
  have "grows scrape pause st (snd r)
          (attempted scrape ?rm ?F1 @
           attempted scrape (room_after scrape ?rm (attempted scrape ?rm ?F1)) ?F2)"
    using grows_trans[OF g g3] .
  then show ?case by (simp only: F attempted_append)
qed

subsection \<open>Runs from the start state\<close>

lemma start_state_simps [simp]:
  "rows start_state = []" "seen start_state = {}" "trace start_state = []"
  by (simp_all add: start_state_def)

lemma visits_once_pages:
  "visits_once (scrape_pages mk_url fetch scrape pause lim maxp idx start_state)"
proof -
  let ?r = "scrape_pages mk_url fetch scrape pause lim maxp idx start_state"
  obtain k where k: "grows scrape pause start_state (snd ?r) (take k (fresh {} (page_links mk_url fetch maxp idx)))"
    using scrape_pages_shape[of scrape pause start_state mk_url fetch lim maxp idx] by auto
  have d: "distinct (take k (fresh {} (page_links mk_url fetch maxp idx)))"
    by (simp add: fresh_distinct)
  have m: "marked_before {} (trace (snd ?r))"
    using scrape_pages_marked[of "{}" start_state mk_url fetch scrape pause lim maxp idx] by simp
  show ?thesis using k d m by (simp add: visits_once_def grows_def)
qed

lemma records_warnings_mem:
  "\<forall>l\<in>set v. case scrape l of
                Inl e \<Rightarrow> (l, e) \<in> set (warnings_of scrape pause v)
              | Inr x \<Rightarrow> x \<in> set (records_of scrape v)"
  by (induction v) (auto split: sum.splits)

lemma isolates_pages:
  "isolates fetch scrape pause lim (page_links mk_url fetch maxp idx)
     (scrape_pages mk_url fetch scrape pause lim maxp idx start_state)"
proof -
  let ?r = "scrape_pages mk_url fetch scrape pause lim maxp idx start_state"
  let ?F = "fresh {} (page_links mk_url fetch maxp idx)"
  let ?v = "attempted scrape (room lim 0) ?F"
  have g: "grows scrape pause start_state (snd ?r) ?v"
    using scrape_pages_exact[of scrape pause start_state mk_url fetch lim maxp idx] by simp
  have sc: "scraped (trace (snd ?r)) = ?v" and ro: "rows (snd ?r) = records_of scrape ?v"
    and wa: "warned (trace (snd ?r)) = warnings_of scrape pause ?v"
    using g by (simp_all add: grows_def)
  have fr: "records_of scrape ?v = first_rows (room lim 0) (records_of scrape ?F)"
    by (rule records_attempted)
  obtain c where c: "ends_at mk_url fetch lim maxp idx start_state ?r c"
    using scrape_pages_ends by blast
  have ra: "\<forall>e. fst ?r = Raised e \<longrightarrow> (\<exists>u. fetch u = Inl e)"
    using c by (auto simp: ends_at_def)
  then have re: "(\<forall>u e. fetch u \<noteq> Inl e) \<longrightarrow>
                   returned ?r = Inr (first_rows (room lim 0) (records_of scrape ?F))"
    using ro fr by (cases "fst ?r") (auto simp: returned_def)
  have me: "\<forall>l\<in>set ?v. case scrape l of
                Inl e \<Rightarrow> (l, e) \<in> set (warnings_of scrape pause ?v)
              | Inr x \<Rightarrow> x \<in> set (records_of scrape ?v)"
    by (rule records_warnings_mem)
  have no: "?v = ?F \<and>
            (\<forall>l\<in>set (page_links mk_url fetch maxp idx).
               case scrape l of
                 Inl e \<Rightarrow> (l, e) \<in> set (warnings_of scrape pause ?v)
               | Inr x \<Rightarrow> x \<in> set (records_of scrape ?v))"
    if "lim = None \<or> lim = Some 0"
  proof -
    from that have "room lim 0 = None" by (auto simp: room_def)
    then have "?v = ?F" by simp
    moreover have "set ?F = set (page_links mk_url fetch maxp idx)" by (simp add: fresh_set)
    ultimately show ?thesis using me by simp
  qed
  have pn: "pause = None \<longrightarrow> warnings_of scrape pause ?v = failures_of scrape ?v"
    by (simp add: warnings_of_None)
  show ?thesis
    unfolding isolates_def sc ro wa
    using fr me no ra re pn by blast
qed

lemma exhausts_pages:
  "exhausts mk_url fetch (scrape_pages mk_url fetch scrape pause lim maxp idx start_state)"
proof -
  let ?r = "scrape_pages mk_url fetch scrape pause lim maxp idx start_state"
  obtain c where c: "ends_at mk_url fetch lim maxp idx start_state ?r c"
    using scrape_pages_ends by blast
  let ?c' = "if fst ?r = Capped then c - 1 else c"
  have li: "listed (trace (snd ?r)) = [idx..?c']"
    using c by (simp add: ends_at_def listed_requested comp_def)
  have le: "idx \<le> c" using c by (simp add: ends_at_def)
  have full: "\<forall>i. idx \<le> i \<and> i < c \<longrightarrow> (\<exists>ls. fetch (mk_url i) = Inr ls \<and> ls \<noteq> [])"
    using c by (simp add: ends_at_def)
  have fin: "case fst ?r of
         Capped \<Rightarrow> True
       | Exhausted \<Rightarrow> fetch (mk_url c) = Inr []
       | Raised e \<Rightarrow> fetch (mk_url c) = Inl e
       | Limit_reached \<Rightarrow> limit_hit lim (snd ?r) \<and> (\<exists>ls. fetch (mk_url c) = Inr ls \<and> ls \<noteq> [])"
    using c by (simp add: ends_at_def)
  have p1: "fst ?r = Exhausted \<and> last (listed (trace (snd ?r))) = i \<and> (\<forall>j\<in>set (listed (trace (snd ?r))). j \<le> i)"
    if i: "i \<in> set (listed (trace (snd ?r)))" and e: "fetch (mk_url i) = Inr []" for i
  proof -
    from i li have r: "idx \<le> i" "i \<le> ?c'" by auto
    have "\<not> i < c" using full r(1) e by auto
    with r have ic: "i = c" and nc: "fst ?r \<noteq> Capped" by (auto split: if_splits)
    have ex: "fst ?r = Exhausted" using fin e ic nc by (cases "fst ?r") auto
    have "last [idx..c] = c" using le by (simp add: upto_rec2)
    then show ?thesis using ex ic nc li by auto
  qed
  have p2: "listed (trace (snd ?r)) \<noteq> [] \<and> fetch (mk_url (last (listed (trace (snd ?r))))) = Inr []"
    if ex: "fst ?r = Exhausted"
  proof -
    have l: "listed (trace (snd ?r)) = [idx..c]" using li ex by simp
    have "last [idx..c] = c" using le by (simp add: upto_rec2)
    moreover have "[idx..c] \<noteq> []" using le by (simp add: upto_rec1)
    ultimately show ?thesis using l fin ex by simp
  qed
  show ?thesis unfolding exhausts_def using p1 p2 by blast
qed

lemma has_links_iff: "has_links fetch u = (\<exists>ls. fetch u = Inr ls \<and> ls \<noteq> [])"
  by (auto simp: has_links_def split: sum.splits list.splits)

lemma cursor_bounded_pages:
  "cursor_bounded mk_url fetch lim idx maxp (scrape_pages mk_url fetch scrape pause lim maxp idx start_state)"
proof -
  let ?r = "scrape_pages mk_url fetch scrape pause lim maxp idx start_state"
  obtain c where c: "ends_at mk_url fetch lim maxp idx start_state ?r c"
    using scrape_pages_ends by blast
  let ?c' = "if fst ?r = Capped then c - 1 else c"
  have li: "listed (trace (snd ?r)) = [idx..?c']"
    using c by (simp add: ends_at_def listed_requested comp_def)
  have cu: "cursors (trace (snd ?r)) = [idx..c]" using c by (simp add: ends_at_def)
  have le: "idx \<le> c" and bd: "c \<le> maxp \<or> c = idx" and cap: "(fst ?r = Capped) = (maxp \<le> c)"
    using c by (simp_all add: ends_at_def)
  have fin: "case fst ?r of
         Capped \<Rightarrow> True
       | Exhausted \<Rightarrow> fetch (mk_url c) = Inr []
       | Raised e \<Rightarrow> fetch (mk_url c) = Inl e
       | Limit_reached \<Rightarrow> limit_hit lim (snd ?r) \<and> (\<exists>ls. fetch (mk_url c) = Inr ls \<and> ls \<noteq> [])"
    using c by (simp add: ends_at_def)
  have ne: "[idx..c] \<noteq> []" and la: "last [idx..c] = c" using le by (simp_all add: upto_rec2)
  have a1: "idx \<le> maxp \<longrightarrow> (\<forall>x\<in>set [idx..c]. x \<le> maxp)"
    using bd le by auto
  have a2: "\<forall>i\<in>set [idx..?c']. idx \<le> i \<and> i < maxp" using bd cap by auto
  have a3: "(fst ?r = Capped \<or> fst ?r = Limit_reached) \<and> (lim = None \<or> lim = Some 0 \<longrightarrow> fst ?r = Capped)"
    if all: "\<forall>i\<in>set [idx..maxp - 1]. has_links fetch (mk_url i)"
  proof (cases "fst ?r")
    case Exhausted
    then have "c < maxp" "fetch (mk_url c) = Inr []" using cap fin by auto
    moreover from this all le have "has_links fetch (mk_url c)" by simp
    ultimately show ?thesis by (simp add: has_links_iff)
  next
    case Capped
    then show ?thesis by simp
  next
    case Limit_reached
    then have "limit_hit lim (snd ?r)" using fin by simp
    then have "lim \<noteq> None \<and> lim \<noteq> Some 0" by (cases lim) (auto simp: limit_hit_def)
    with Limit_reached show ?thesis by auto
  next
    case (Raised e)
    then have "c < maxp" "fetch (mk_url c) = Inl e" using cap fin by auto
    moreover from this all le have "has_links fetch (mk_url c)" by simp
    ultimately show ?thesis by (simp add: has_links_iff)
  qed
  show ?thesis
    unfolding cursor_bounded_def cu li la
  proof (intro conjI)
    show "[idx..c] \<noteq> []" by (rule ne)
    show "[idx..c] = [idx..c]" by (rule refl)
    show "sorted [idx..c]" by (rule sorted_upto)
    show "idx \<le> maxp \<longrightarrow> (\<forall>x\<in>set [idx..c]. x \<le> maxp)" by (rule a1)
    show "\<forall>i\<in>set [idx..?c']. idx \<le> i \<and> i < maxp" by (rule a2)
    show "(fst ?r = Capped) = (maxp \<le> c)" by (rule cap)
    show "(\<forall>i\<in>set [idx..maxp - 1]. has_links fetch (mk_url i)) \<longrightarrow>
          (fst ?r = Capped \<or> fst ?r = Limit_reached) \<and>
          (lim = None \<or> lim = Some 0 \<longrightarrow> fst ?r = Capped)"
      using a3 by blast
  qed
qed

lemma nth_notin_take: "distinct xs \<Longrightarrow> n < length xs \<Longrightarrow> xs ! n \<notin> set (take n xs)"
  by (auto simp: in_set_conv_nth distinct_conv_nth)

lemma respects_limit_pages:
  assumes "0 < L"
  shows "respects_limit L (page_links mk_url fetch maxp idx) scrape
           (scrape_pages mk_url fetch scrape pause (Some L) maxp idx start_state)"
proof -
  let ?r = "scrape_pages mk_url fetch scrape pause (Some L) maxp idx start_state"
  let ?F = "fresh {} (page_links mk_url fetch maxp idx)"
  have L0: "L \<noteq> 0" using assms by simp
  have cap: "length (rows (snd ?r)) \<le> nat L"
    using scrape_pages_cap[of L start_state mk_url fetch scrape pause maxp idx] assms by simp
  have main: "fst ?r = Limit_reached \<and> length (rows (snd ?r)) = nat L \<and>
         scraped (trace (snd ?r)) = take (nat L) ?F \<and>
         rows (snd ?r) = records_of scrape (take (nat L) ?F) \<and>
         ?F ! nat L \<notin> set (scraped (trace (snd ?r)))"
    if more: "nat L < card (set (page_links mk_url fetch maxp idx))"
      and ok: "\<forall>l\<in>set (take (nat L) ?F). \<exists>x. scrape l = Inr x"
  proof -
    have len: "nat L < length ?F" using more by (simp add: fresh_length)
    from scrape_pages_limited[OF L0, of start_state mk_url fetch maxp idx scrape pause] ok
    have g: "grows scrape pause start_state (snd ?r) (take (nat L) ?F)"
      and st: "0 < nat L \<and> nat L \<le> length ?F \<longrightarrow> fst ?r = Limit_reached"
      by simp_all
    have "fst ?r = Limit_reached" using st len assms by simp
    moreover have sc: "scraped (trace (snd ?r)) = take (nat L) ?F" using g by (simp add: grows_def)
    moreover have ro: "rows (snd ?r) = records_of scrape (take (nat L) ?F)" using g by (simp add: grows_def)
    moreover have "length (rows (snd ?r)) = nat L"
      using ro records_of_length[OF ok] len by simp
    moreover have "?F ! nat L \<notin> set (take (nat L) ?F)"
      using nth_notin_take[OF fresh_distinct len] .
    ultimately show ?thesis by simp
  qed
  show ?thesis unfolding respects_limit_def using cap main by blast
qed

subsection \<open>The scrapers as instances of the loop\<close>

lemma ice_run_opened:
  "ice_scrape_all_run (Inr cur) get_listing extract slept lim maxp =
     scrape_pages (ice_list_url (set_or_remove_page cur None)) (ice_fetch_links get_listing)
                  extract slept lim maxp 0 start_state"
  by (simp add: ice_scrape_all_run_def)

lemma visits_once_start: "visits_once (s, start_state)"
  by (simp add: visits_once_def)

lemma fetch_links_limit [simp]:
  "fetch_links L get_listing (cfg\<lparr>limit := x\<rparr>) = fetch_links L get_listing cfg"
  by (rule ext) (simp add: fetch_links_def split: sum.splits)

lemma scrape_row_limit [simp]:
  "scrape_row L get_detail (cfg\<lparr>limit := x\<rparr>) = scrape_row L get_detail cfg"
  by (rule ext) (simp add: scrape_row_def)

subsection \<open>Extraction, records and links\<close>

lemma strategy_value_body:
  "strategy_value L drv st =
     (case spec_body L drv (body_text drv) (spec_of st) of Return v \<Rightarrow> v | _ \<Rightarrow> [])"
  by (simp add: strategy_value_def extract_with_specs_def split: flow.splits)

lemma return_not_empty:
  "\<not> blank_match L drv st \<Longrightarrow> spec_body L drv (body_text drv) (spec_of st) = Return v \<Longrightarrow> v \<noteq> []"
  by (cases st)
     (auto simp: spec_body_def css_block_def css_attr_block_def regex_block_def blank_match_def
                 Let_def split: option.splits if_splits)

text \<open>
  Unless a regex strategy matches text that is empty once normalized, the extractor
  returns what the extractor of the specification returns.
\<close>

lemma extract_first_nonempty:
  "\<forall>st\<in>set sts. \<not> blank_match L drv st \<Longrightarrow>
     extract_with_specs L drv (map spec_of sts) = first_nonempty L drv sts"
proof (induction sts)
  case Nil
  show ?case by (simp add: extract_with_specs_def first_nonempty_def)
next
  case (Cons st sts)
  then have IH: "specs_loop L drv (body_text drv) (map spec_of sts) = first_nonempty L drv sts"
    by (simp add: extract_with_specs_def)
  show ?case
  proof (cases "spec_body L drv (body_text drv) (spec_of st)")
    case (Return v)
    with Cons.prems have "v \<noteq> []" using return_not_empty[of L drv st v] by simp
    with Return show ?thesis
      by (simp add: extract_with_specs_def first_nonempty_def strategy_value_body)
  next
    case Continue
    with IH show ?thesis
      by (simp add: extract_with_specs_def first_nonempty_def strategy_value_body)
  next
    case Fall_through
    with IH show ?thesis
      by (simp add: extract_with_specs_def first_nonempty_def strategy_value_body)
  qed
qed

lemma fold_update_keys:
  "set (map fst (fold (\<lambda>(k, v) d. AList.update k (f v) d) xs d0)) =
     set (map fst d0) \<union> set (map fst xs)"
  by (induction xs arbitrary: d0) (auto simp: AList.dom_update split: prod.splits)

lemma fold_update_distinct:
  "distinct (map fst d0) \<Longrightarrow>
     distinct (map fst (fold (\<lambda>(k, v) d. AList.update k (f v) d) xs d0))"
  by (induction xs arbitrary: d0) (auto simp: AList.distinct_update split: prod.splits)

lemma fold_update_order:
  "distinct (map fst xs) \<Longrightarrow> set (map fst d0) \<inter> set (map fst xs) = {} \<Longrightarrow>
   map fst (fold (\<lambda>(k, v) d. AList.update k (f v) d) xs d0) = map fst d0 @ map fst xs"
proof (induction xs arbitrary: d0)
  case Nil
  then show ?case by simp
next
  case (Cons x xs)
  obtain k v where x: "x = (k, v)" by (cases x)
  have notin: "k \<notin> fst ` set d0" using Cons.prems x by auto
  have upd: "map fst (AList.update k (f v) d0) = map fst d0 @ [k]"
    using notin by (induction d0) auto
  have "set (map fst (AList.update k (f v) d0)) \<inter> set (map fst xs) = {}"
    using Cons.prems x upd by auto
  with Cons.IH[of "AList.update k (f v) d0"] Cons.prems x upd show ?case by simp
qed

lemma fold_update_lookup:
  "distinct (map fst xs) \<Longrightarrow> (k, v) \<in> set xs \<Longrightarrow>
   map_of (fold (\<lambda>(k, v) d. AList.update k (f v) d) xs d0) k = Some (f v)"
proof (induction xs arbitrary: d0)
  case Nil
  then show ?case by simp
next
  case (Cons x xs)
  obtain k' v' where x: "x = (k', v')" by (cases x)
  show ?case
  proof (cases "(k, v) \<in> set xs")
    case True
    with Cons x show ?thesis by simp
  next
    case False
    with Cons.prems x have eq: "k' = k" "v' = v" by auto
    have kn: "k \<notin> fst ` set xs" using Cons.prems x eq by auto
    have keep: "map_of (fold (\<lambda>(k, v) d. AList.update k (f v) d) xs d1) k = map_of d1 k" for d1
      using kn by (induction xs arbitrary: d1) (auto simp: AList.update_conv' split: prod.splits)
    show ?thesis using x eq keep by (simp add: AList.update_conv')
  qed
qed

lemma links_of_selector_set:
  "set (links_of_selector L drv base sel) =
     {ensure_absolute L h base | h a. a \<in> set (drv (CSS_SELECTOR sel)) \<and>
                                      get_attribute a ''href'' = Some h \<and> h \<noteq> []}"
  by (auto simp: links_of_selector_def split: option.splits if_splits) force

lemma ice_links_in_set:
  "set (ice_links_in c sel) =
     {before_query (case get_attribute a ''href'' of None \<Rightarrow> [] | Some v \<Rightarrow> v) | a.
        a \<in> set (find_elements_in c sel) \<and>
        before_query (case get_attribute a ''href'' of None \<Rightarrow> [] | Some v \<Rightarrow> v) \<noteq> [] \<and>
        contains (before_query (case get_attribute a ''href'' of None \<Rightarrow> [] | Some v \<Rightarrow> v))
                 ''/detention''}"
  by (auto simp: ice_links_in_def Let_def split: if_splits)

lemma ice_collect_exact:
  "case ice_containers drv of
     Inl e \<Rightarrow> collect_facility_links_on_current_page drv = Inl e
   | Inr cs \<Rightarrow>
       (\<exists>ls. collect_facility_links_on_current_page drv = Inr ls \<and> distinct ls \<and> sorted ls \<and>
             set ls =
               {before_query (case get_attribute a ''href'' of None \<Rightarrow> [] | Some v \<Rightarrow> v) | a c sel.
                  c \<in> set cs \<and> sel \<in> set ice_patterns \<and> a \<in> set (find_elements_in c sel) \<and>
                  before_query (case get_attribute a ''href'' of None \<Rightarrow> [] | Some v \<Rightarrow> v) \<noteq> [] \<and>
                  contains (before_query (case get_attribute a ''href'' of None \<Rightarrow> [] | Some v \<Rightarrow> v))
                           ''/detention''})"
proof (cases "ice_containers drv")
  case (Inl e)
  then show ?thesis by (simp add: collect_facility_links_on_current_page_def)
next
  case (Inr cs)
  let ?xs = "concat (map (\<lambda>c. concat (map (ice_links_in c) ice_patterns)) cs)"
  have c: "collect_facility_links_on_current_page drv = Inr (sorted_list_of_set (set ?xs))"
    using Inr by (simp add: collect_facility_links_on_current_page_def)
  have "set (sorted_list_of_set (set ?xs)) = set ?xs"
    by (rule set_sorted_list_of_set) (rule finite_set)
  also have "\<dots> =
     {before_query (case get_attribute a ''href'' of None \<Rightarrow> [] | Some v \<Rightarrow> v) | a c sel.
        c \<in> set cs \<and> sel \<in> set ice_patterns \<and> a \<in> set (find_elements_in c sel) \<and>
        before_query (case get_attribute a ''href'' of None \<Rightarrow> [] | Some v \<Rightarrow> v) \<noteq> [] \<and>
        contains (before_query (case get_attribute a ''href'' of None \<Rightarrow> [] | Some v \<Rightarrow> v))
                 ''/detention''}"
    by (simp add: ice_links_in_set) blast
  finally have "set (sorted_list_of_set (set ?xs)) = \<dots>" .
  moreover have "distinct (sorted_list_of_set (set ?xs))" "sorted (sorted_list_of_set (set ?xs))"
    by (rule distinct_sorted_list_of_set, rule sorted_sorted_list_of_set)
  ultimately show ?thesis using Inr c by simp
qed

subsection \<open>Listing URLs\<close>

lemma requested_pages:
  "requested (trace (snd (scrape_pages mk_url fetch scrape pause lim maxp idx start_state))) =
     map (\<lambda>i. (i, mk_url i))
         (listed (trace (snd (scrape_pages mk_url fetch scrape pause lim maxp idx start_state))))"
proof -
  let ?r = "scrape_pages mk_url fetch scrape pause lim maxp idx start_state"
  obtain c where c: "ends_at mk_url fetch lim maxp idx start_state ?r c"
    using scrape_pages_ends by blast
  then have "requested (trace (snd ?r)) =
      map (\<lambda>i. (i, mk_url i)) [idx..(if fst ?r = Capped then c - 1 else c)]"
    by (simp add: ends_at_def)
  then show ?thesis by (simp add: listed_requested comp_def)
qed

lemma set_page_query:
  "query (set_page u p None) = AList.delete p (query u)"
  "query (set_page u p (Some n)) = AList.update p [str_int n] (query u)"
  by (simp_all add: set_page_def)

lemma set_page_rest:
  "scheme (set_page u p x) = scheme u" "netloc (set_page u p x) = netloc u"
  "path (set_page u p x) = path u" "params (set_page u p x) = params u"
  "fragment (set_page u p x) = fragment u"
  by (simp_all add: set_page_def Let_def)

section \<open>The claims\<close>

text \<open>
  C1. The claim is that the extractor returns the value of the first strategy whose
  normalized value is not empty. The two selector branches test the normalized value
  before they return; the regex branch tests only that there is a match and returns the
  normalized match even when it is empty. On a page whose body text is \<open>Item x tel 555\<close>
  and whose heading reads \<open>Item x\<close>, with the strategies regex \<open>" "\<close> and then text
  of \<open>h1\<close>, the extractor returns the empty string, though the second strategy yields
  \<open>Item x\<close>.
\<close>

theorem C1_blank_regex_match_hides_later_strategy:
  "extract_with_specs demo_lib (demo_detail_page ''x'')
     (map spec_of [RegexOverPageText '' '', ElementText ''h1'']) = [] \<and>
   strategy_value demo_lib (demo_detail_page ''x'') (RegexOverPageText '' '') = [] \<and>
   strategy_value demo_lib (demo_detail_page ''x'') (ElementText ''h1'') = ''Item x'' \<and>
   first_nonempty demo_lib (demo_detail_page ''x'') [RegexOverPageText '' '', ElementText ''h1'']
     = ''Item x'' \<and>
   body_text (demo_detail_page ''x'') = ''Item x tel 555''"
  by code_simp

text \<open>
  C2, as the claim states it, fails on the small site, which has five different links:
  with the limit 0 the run produces five rows; with the limit 1 and a first link whose
  scrape raises, the detail scraper is called on the second new link as well; with the
  limit 2 and every scrape raising, the run produces no row; and with the limit 4 and the
  page cap 1 the run produces the three rows of the first page, the links of the second
  page being out of reach.
\<close>

theorem C2_counterexample:
  "card (set (site_links demo_lib demo_listing demo_cfg)) = 5 \<and>
   length (rows (snd (scrape_all_run demo_lib demo_listing (demo_detail [])
                        (demo_cfg\<lparr>limit := Some 0\<rparr>)))) = 5 \<and>
   length (rows (snd (scrape_all_run demo_lib demo_listing (demo_detail [''https://ex.com/a''])
                        (demo_cfg\<lparr>limit := Some 1\<rparr>)))) = 1 \<and>
   scraped (trace (snd (scrape_all_run demo_lib demo_listing (demo_detail [''https://ex.com/a''])
                          (demo_cfg\<lparr>limit := Some 1\<rparr>)))) =
     [''https://ex.com/a'', ''https://ex.com/b''] \<and>
   length (rows (snd (scrape_all_run demo_lib demo_listing
                        (demo_detail [''https://ex.com/a'', ''https://ex.com/b'', ''https://ex.com/s'',
                                      ''https://ex.com/c'', ''https://ex.com/d''])
                        (demo_cfg\<lparr>limit := Some 2\<rparr>)))) = 0 \<and>
   fetch_links demo_lib demo_listing demo_cfg (list_url (start_url demo_cfg) (page_param demo_cfg) 1)
     = Inr [''https://ex.com/c'', ''https://ex.com/d'', ''https://ex.com/s''] \<and>
   length (rows (snd (scrape_all_run demo_lib demo_listing (demo_detail [])
                        (demo_cfg\<lparr>limit := Some 4, max_pages := 1\<rparr>)))) = 3"
  by code_simp

text \<open>
  C2, amended. For every item limit \<open>L\<close> above 0, a run of either scraper never has
  more than \<open>L\<close> rows; and when the listing pages of the site (those from the start index
  up to the first page without links, below the page cap) hold more than \<open>L\<close> different
  links and the scrape of none of the first \<open>L\<close> new links raises, the run ends on the
  limit with exactly \<open>L\<close> rows, those of the first \<open>L\<close> new links: the detail scraper
  is called on these links only, so the run stops before the link after them is visited.
\<close>

theorem C2_limit_amended:
  "0 < L \<Longrightarrow>
   (limit cfg = Some L \<longrightarrow>
      respects_limit L (site_links Lib get_listing cfg) (scrape_row Lib get_detail cfg)
        (scrape_all_run Lib get_listing get_detail cfg)) \<and>
   respects_limit L (ice_site_links ice_listing current_url maxp) extract_facility_page
     (ice_scrape_all_run (Inr current_url) ice_listing extract_facility_page slept (Some L) maxp)"
  unfolding scrape_all_run_def ice_run_opened site_links_def ice_site_links_def
  by (auto simp: respects_limit_pages)

theorem C2_witness:
  "(0::int) < 2 \<and> limit (demo_cfg\<lparr>limit := Some 2\<rparr>) = Some 2 \<and>
   respects_limit 2 (site_links demo_lib demo_listing (demo_cfg\<lparr>limit := Some 2\<rparr>))
     (scrape_row demo_lib (demo_detail []) (demo_cfg\<lparr>limit := Some 2\<rparr>))
     (scrape_all_run demo_lib demo_listing (demo_detail []) (demo_cfg\<lparr>limit := Some 2\<rparr>)) \<and>
   nat 2 < card (set (site_links demo_lib demo_listing (demo_cfg\<lparr>limit := Some 2\<rparr>))) \<and>
   take (nat 2) (fresh {} (site_links demo_lib demo_listing (demo_cfg\<lparr>limit := Some 2\<rparr>))) =
     [''https://ex.com/a'', ''https://ex.com/b''] \<and>
   scrape_row demo_lib (demo_detail []) (demo_cfg\<lparr>limit := Some 2\<rparr>) ''https://ex.com/a'' =
     Inr \<lparr>data = [(''Title'', ''Item https://ex.com/a''), (''Phone'', ''555'')]\<rparr> \<and>
   scrape_row demo_lib (demo_detail []) (demo_cfg\<lparr>limit := Some 2\<rparr>) ''https://ex.com/b'' =
     Inr \<lparr>data = [(''Title'', ''Item https://ex.com/b''), (''Phone'', ''555'')]\<rparr> \<and>
   scrape_all demo_lib demo_listing (demo_detail []) (demo_cfg\<lparr>limit := Some 2\<rparr>) =
     Inr [\<lparr>data = [(''Title'', ''Item https://ex.com/a''), (''Phone'', ''555'')]\<rparr>,
          \<lparr>data = [(''Title'', ''Item https://ex.com/b''), (''Phone'', ''555'')]\<rparr>] \<and>
   scraped (trace (snd (scrape_all_run demo_lib demo_listing (demo_detail [])
                          (demo_cfg\<lparr>limit := Some 2\<rparr>)))) =
     [''https://ex.com/a'', ''https://ex.com/b''] \<and>
   fresh {} (site_links demo_lib demo_listing (demo_cfg\<lparr>limit := Some 2\<rparr>)) ! nat 2 =
     ''https://ex.com/s''"
proof -
  have "limit (demo_cfg\<lparr>limit := Some 2\<rparr>) = Some 2" by code_simp
  moreover have "nat 2 < card (set (site_links demo_lib demo_listing (demo_cfg\<lparr>limit := Some 2\<rparr>)))"
    by code_simp
  moreover have "take (nat 2) (fresh {} (site_links demo_lib demo_listing (demo_cfg\<lparr>limit := Some 2\<rparr>))) =
     [''https://ex.com/a'', ''https://ex.com/b'']"
    by code_simp
  moreover have "scrape_row demo_lib (demo_detail []) (demo_cfg\<lparr>limit := Some 2\<rparr>) ''https://ex.com/a'' =
     Inr \<lparr>data = [(''Title'', ''Item https://ex.com/a''), (''Phone'', ''555'')]\<rparr>"
    by code_simp
  moreover have "scrape_row demo_lib (demo_detail []) (demo_cfg\<lparr>limit := Some 2\<rparr>) ''https://ex.com/b'' =
     Inr \<lparr>data = [(''Title'', ''Item https://ex.com/b''), (''Phone'', ''555'')]\<rparr>"
    by code_simp
  moreover have "scrape_all demo_lib demo_listing (demo_detail []) (demo_cfg\<lparr>limit := Some 2\<rparr>) =
     Inr [\<lparr>data = [(''Title'', ''Item https://ex.com/a''), (''Phone'', ''555'')]\<rparr>,
          \<lparr>data = [(''Title'', ''Item https://ex.com/b''), (''Phone'', ''555'')]\<rparr>]"
    by code_simp
  moreover have "scraped (trace (snd (scrape_all_run demo_lib demo_listing (demo_detail [])
                          (demo_cfg\<lparr>limit := Some 2\<rparr>)))) =
     [''https://ex.com/a'', ''https://ex.com/b'']"
    by code_simp
  moreover have "fresh {} (site_links demo_lib demo_listing (demo_cfg\<lparr>limit := Some 2\<rparr>)) ! nat 2 =
     ''https://ex.com/s''"
    by code_simp
  ultimately show ?thesis
    using C2_limit_amended[of 2 "demo_cfg\<lparr>limit := Some 2\<rparr>" demo_lib demo_listing "demo_detail []"]
    by simp
qed

text \<open>
  C3, as the claim states it, fails for a start index other than 0: with the start index 1
  the first listing page requested has the page parameter set to \<open>1\<close>, while the base
  URL without the parameter is never requested.
\<close>

theorem C3_counterexample:
  "page_start (demo_cfg\<lparr>page_start := 1\<rparr>) = 1 \<and>
   hd (requested (trace (snd (scrape_all_run demo_lib demo_listing (demo_detail [])
                                (demo_cfg\<lparr>page_start := 1\<rparr>))))) =
     (1, \<lparr>scheme = ''https'', netloc = ''ex.com'', path = ''/list'', params = [],
           query = [(''page'', [''1''])], fragment = []\<rparr>) \<and>
   set_page (start_url demo_cfg) (page_param demo_cfg) None =
     \<lparr>scheme = ''https'', netloc = ''ex.com'', path = ''/list'', params = [],
      query = [], fragment = []\<rparr>"
  by code_simp

text \<open>
  C3, amended. The listing URL of page index 0 is the base URL with the page parameter
  removed entirely; the listing URL of any other page index \<open>n\<close>, the configured start
  index included when it is not 0, is the base URL with the page parameter set to the
  decimal text of \<open>n\<close> (\<open>3\<close> gives \<open>"3"\<close>); nothing else of the URL changes; and every
  listing page a run requests has the URL so built from its index.
\<close>

theorem C3_list_url_amended:
  "list_url start param 0 = set_page start param None \<and>
   param \<notin> fst ` set (query (list_url start param 0)) \<and>
   (n \<noteq> 0 \<longrightarrow> map_of (query (list_url start param n)) param = Some [str_int n]) \<and>
   (k \<noteq> param \<longrightarrow> map_of (query (list_url start param n)) k = map_of (query start) k) \<and>
   scheme (list_url start param n) = scheme start \<and>
   netloc (list_url start param n) = netloc start \<and>
   path (list_url start param n) = path start \<and>
   params (list_url start param n) = params start \<and>
   fragment (list_url start param n) = fragment start \<and>
   str_int 3 = ''3'' \<and>
   requested (trace (snd (scrape_all_run L get_listing get_detail cfg))) =
     map (\<lambda>i. (i, list_url (start_url cfg) (page_param cfg) i))
         (listed (trace (snd (scrape_all_run L get_listing get_detail cfg))))"
proof -
  have a: "param \<notin> fst ` set (query (list_url start param 0))"
    by (simp add: list_url_def set_page_query AList.delete_notin_dom)
  have b: "map_of (query (list_url start param n)) param = Some [str_int n]" if "n \<noteq> 0"
    using that by (simp add: list_url_def set_page_query AList.update_conv')
  have c: "map_of (query (list_url start param n)) k = map_of (query start) k" if "k \<noteq> param"
    using that by (simp add: list_url_def set_page_query AList.update_conv' AList.delete_conv')
  have d: "str_int 3 = ''3''"
    by (simp add: str_int_def str_nat.simps digit_char_def)
  have e: "requested (trace (snd (scrape_all_run L get_listing get_detail cfg))) =
     map (\<lambda>i. (i, list_url (start_url cfg) (page_param cfg) i))
         (listed (trace (snd (scrape_all_run L get_listing get_detail cfg))))"
    unfolding scrape_all_run_def by (rule requested_pages)
  show ?thesis using a b c d e by (simp add: list_url_def set_page_rest)
qed

theorem C3_witness:
  "list_url (demo_start\<lparr>query := [(''q'', [''x'']), (''page'', [''7''])]\<rparr>) ''page'' 0 =
     demo_start\<lparr>query := [(''q'', [''x''])]\<rparr> \<and>
   (3::int) \<noteq> 0 \<and>
   list_url (demo_start\<lparr>query := [(''q'', [''x'']), (''page'', [''7''])]\<rparr>) ''page'' 3 =
     demo_start\<lparr>query := [(''q'', [''x'']), (''page'', [''3''])]\<rparr> \<and>
   map_of (query (list_url (demo_start\<lparr>query := [(''q'', [''x'']), (''page'', [''7''])]\<rparr>)
                   ''page'' 3)) ''page'' = Some [''3''] \<and>
   ''q'' \<noteq> ''page'' \<and>
   map_of (query (list_url (demo_start\<lparr>query := [(''q'', [''x'']), (''page'', [''7''])]\<rparr>)
                   ''page'' 3)) ''q'' = Some [''x''] \<and>
   requested (trace (snd (scrape_all_run demo_lib demo_listing (demo_detail []) demo_cfg))) =
     [(0, demo_start), (1, demo_start\<lparr>query := [(''page'', [''1''])]\<rparr>),
      (2, demo_start\<lparr>query := [(''page'', [''2''])]\<rparr>)]"
proof -
  let ?u = "demo_start\<lparr>query := [(''q'', [''x'']), (''page'', [''7''])]\<rparr>"
  have a: "list_url ?u ''page'' 0 = demo_start\<lparr>query := [(''q'', [''x''])]\<rparr>" by code_simp
  have b: "list_url ?u ''page'' 3 = demo_start\<lparr>query := [(''q'', [''x'']), (''page'', [''3''])]\<rparr>"
    by code_simp
  have c: "requested (trace (snd (scrape_all_run demo_lib demo_listing (demo_detail []) demo_cfg))) =
     [(0, demo_start), (1, demo_start\<lparr>query := [(''page'', [''1''])]\<rparr>),
      (2, demo_start\<lparr>query := [(''page'', [''2''])]\<rparr>)]"
    by code_simp
  have d: "map_of (query ?u) ''q'' = Some [''x'']" by code_simp
  note c3 = C3_list_url_amended[of ?u "''page''" 3 "''q''" demo_lib demo_listing "demo_detail []" demo_cfg]
  from c3 have e: "map_of (query (list_url ?u ''page'' 3)) ''page'' = Some [''3'']" by simp
  from c3 d have f: "map_of (query (list_url ?u ''page'' 3)) ''q'' = Some [''x'']" by simp
  show ?thesis using a b c e f by simp
qed

text \<open>
  C4. In every run of either scraper, a link is put into the set \<open>seen\<close> before the
  detail scraper is called on it, and the detail scraper is called on a link at most once
  in the whole run, whether the link is found on several listing pages or its scrape
  raises: the links scraped are distinct, and they are the members of \<open>seen\<close>.
\<close>

theorem C4_seen_before_scrape_at_most_once:
  "visits_once (scrape_all_run L get_listing get_detail cfg) \<and>
   visits_once (ice_scrape_all_run opened ice_listing extract_facility_page slept lim maxp)"
proof
  show "visits_once (scrape_all_run L get_listing get_detail cfg)"
    unfolding scrape_all_run_def by (rule visits_once_pages)
  show "visits_once (ice_scrape_all_run opened ice_listing extract_facility_page slept lim maxp)"
  proof (cases opened)
    case (Inl e)
    then show ?thesis by (simp add: ice_scrape_all_run_def visits_once_start)
  next
    case (Inr cur)
    then show ?thesis unfolding Inr ice_run_opened by (simp add: visits_once_pages)
  qed
qed

theorem C4_witness:
  "visits_once (scrape_all_run demo_lib demo_listing (demo_detail [''https://ex.com/a'']) demo_cfg) \<and>
   scraped (trace (snd (scrape_all_run demo_lib demo_listing (demo_detail [''https://ex.com/a''])
                          demo_cfg))) =
     [''https://ex.com/a'', ''https://ex.com/b'', ''https://ex.com/s'', ''https://ex.com/c'',
      ''https://ex.com/d''] \<and>
   site_links demo_lib demo_listing demo_cfg =
     [''https://ex.com/a'', ''https://ex.com/b'', ''https://ex.com/s'', ''https://ex.com/c'',
      ''https://ex.com/d'', ''https://ex.com/s'']"
proof -
  have "scraped (trace (snd (scrape_all_run demo_lib demo_listing (demo_detail [''https://ex.com/a''])
                          demo_cfg))) =
     [''https://ex.com/a'', ''https://ex.com/b'', ''https://ex.com/s'', ''https://ex.com/c'',
      ''https://ex.com/d'']"
    by code_simp
  moreover have "site_links demo_lib demo_listing demo_cfg =
     [''https://ex.com/a'', ''https://ex.com/b'', ''https://ex.com/s'', ''https://ex.com/c'',
      ''https://ex.com/d'', ''https://ex.com/s'']"
    by code_simp
  ultimately show ?thesis
    using C4_seen_before_scrape_at_most_once[of demo_lib demo_listing
            "demo_detail [''https://ex.com/a'']" demo_cfg]
    by simp
qed

text \<open>
  C5. When the scrape of a detail page raises, the run goes on with the next link. The
  detail scraper is called on the new links of the listing pages of the site, one after
  the other in their order, until the rows are full, whether a call before raised or not;
  without a limit it is called on every link of the site. The rows of the run are those
  of the links whose scrape returned and none for a link whose scrape raised: they are
  the first rows, as many as the limit allows, that the new links of the site give. Each
  link whose scrape raised is reported in a warning with its exception (in the ICE
  scraper a sleep that raises after a row was appended is reported as well, and the row
  is kept). The run returns its rows unless loading a listing page raises, the only
  exception that leaves the loop.
\<close>

theorem C5_detail_failure_is_isolated:
  "isolates (fetch_links L get_listing cfg) (scrape_row L get_detail cfg) None (limit cfg)
     (site_links L get_listing cfg)
     (scrape_all_run L get_listing get_detail cfg) \<and>
   isolates (ice_fetch_links ice_listing) extract_facility_page slept lim
     (ice_site_links ice_listing current_url maxp)
     (ice_scrape_all_run (Inr current_url) ice_listing extract_facility_page slept lim maxp)"
  unfolding scrape_all_run_def ice_run_opened site_links_def ice_site_links_def
  by (simp add: isolates_pages)

theorem C5_witness:
  "isolates (fetch_links demo_lib demo_listing demo_cfg)
     (scrape_row demo_lib (demo_detail [''https://ex.com/a'']) demo_cfg) None (limit demo_cfg)
     (site_links demo_lib demo_listing demo_cfg)
     (scrape_all_run demo_lib demo_listing (demo_detail [''https://ex.com/a'']) demo_cfg) \<and>
   isolates (ice_fetch_links demo_ice_listing) (demo_extract [''https://ice.gov/detention-facility/a'']) (Some ''ValueError'') None
     (ice_site_links demo_ice_listing demo_start 200)
     (ice_scrape_all_run (Inr demo_start) demo_ice_listing (demo_extract [''https://ice.gov/detention-facility/a''])
        (Some ''ValueError'') None 200) \<and>
   site_links demo_lib demo_listing demo_cfg =
     [''https://ex.com/a'', ''https://ex.com/b'', ''https://ex.com/s'', ''https://ex.com/c'',
      ''https://ex.com/d'', ''https://ex.com/s''] \<and>
   scrape_row demo_lib (demo_detail [''https://ex.com/a'']) demo_cfg ''https://ex.com/a'' =
     Inl ''TimeoutException'' \<and>
   scrape_row demo_lib (demo_detail [''https://ex.com/a'']) demo_cfg ''https://ex.com/b'' =
     Inr \<lparr>data = [(''Title'', ''Item https://ex.com/b''), (''Phone'', ''555'')]\<rparr> \<and>
   scraped (trace (snd (scrape_all_run demo_lib demo_listing (demo_detail [''https://ex.com/a'']) demo_cfg))) =
     [''https://ex.com/a'', ''https://ex.com/b'', ''https://ex.com/s'', ''https://ex.com/c'',
      ''https://ex.com/d''] \<and>
   warned (trace (snd (scrape_all_run demo_lib demo_listing (demo_detail [''https://ex.com/a'']) demo_cfg))) =
     [(''https://ex.com/a'', ''TimeoutException'')] \<and>
   (\<forall>u e. fetch_links demo_lib demo_listing demo_cfg u \<noteq> Inl e) \<and>
   scrape_all demo_lib demo_listing (demo_detail [''https://ex.com/a'']) demo_cfg =
     Inr [\<lparr>data = [(''Title'', ''Item https://ex.com/b''), (''Phone'', ''555'')]\<rparr>,
          \<lparr>data = [(''Title'', ''Item https://ex.com/s''), (''Phone'', ''555'')]\<rparr>,
          \<lparr>data = [(''Title'', ''Item https://ex.com/c''), (''Phone'', ''555'')]\<rparr>,
          \<lparr>data = [(''Title'', ''Item https://ex.com/d''), (''Phone'', ''555'')]\<rparr>] \<and>
   scrape_all demo_lib demo_listing (demo_detail [''https://ex.com/a'']) (demo_cfg\<lparr>limit := Some 2\<rparr>) =
     Inr [\<lparr>data = [(''Title'', ''Item https://ex.com/b''), (''Phone'', ''555'')]\<rparr>,
          \<lparr>data = [(''Title'', ''Item https://ex.com/s''), (''Phone'', ''555'')]\<rparr>] \<and>
   ice_site_links demo_ice_listing demo_start 200 =
     [''https://ice.gov/detention-facility/a'', ''https://ice.gov/detention-facility/b'',
      ''https://ice.gov/detention-facility/a'', ''https://ice.gov/detention-facility/c''] \<and>
   ice_scrape_all (Inr demo_start) demo_ice_listing (demo_extract [''https://ice.gov/detention-facility/a'']) None None 200 =
     Inr [\<lparr>facility_name = ''https://ice.gov/detention-facility/b'', field_office_name = [],
            facility_address = [], state = [], facility_phone = [], facility_email = [],
            field_office_phone = []\<rparr>,
          \<lparr>facility_name = ''https://ice.gov/detention-facility/c'', field_office_name = [],
            facility_address = [], state = [], facility_phone = [], facility_email = [],
            field_office_phone = []\<rparr>] \<and>
   warned (trace (snd (ice_scrape_all_run (Inr demo_start) demo_ice_listing
                         (demo_extract [''https://ice.gov/detention-facility/a'']) None None 200))) =
     [(''https://ice.gov/detention-facility/a'', ''TimeoutException'')] \<and>
   ice_scrape_all (Inr demo_start) demo_ice_listing (demo_extract [''https://ice.gov/detention-facility/a''])
     (Some ''ValueError'') None 200 =
     Inr [\<lparr>facility_name = ''https://ice.gov/detention-facility/b'', field_office_name = [],
            facility_address = [], state = [], facility_phone = [], facility_email = [],
            field_office_phone = []\<rparr>,
          \<lparr>facility_name = ''https://ice.gov/detention-facility/c'', field_office_name = [],
            facility_address = [], state = [], facility_phone = [], facility_email = [],
            field_office_phone = []\<rparr>] \<and>
   warned (trace (snd (ice_scrape_all_run (Inr demo_start) demo_ice_listing
                         (demo_extract [''https://ice.gov/detention-facility/a'']) (Some ''ValueError'') None 200))) =
     [(''https://ice.gov/detention-facility/a'', ''TimeoutException''),
      (''https://ice.gov/detention-facility/b'', ''ValueError''),
      (''https://ice.gov/detention-facility/c'', ''ValueError'')] \<and>
   ice_scrape_all (Inr demo_start) (\<lambda>u. Inl ''WebDriverException'')
     (demo_extract [''https://ice.gov/detention-facility/a'']) None None 200 =
     Inl ''WebDriverException''"
proof -
  have sl: "site_links demo_lib demo_listing demo_cfg =
     [''https://ex.com/a'', ''https://ex.com/b'', ''https://ex.com/s'', ''https://ex.com/c'',
      ''https://ex.com/d'', ''https://ex.com/s'']"
    by code_simp
  have ra: "scrape_row demo_lib (demo_detail [''https://ex.com/a'']) demo_cfg ''https://ex.com/a'' =
     Inl ''TimeoutException''"
    by code_simp
  have rb: "scrape_row demo_lib (demo_detail [''https://ex.com/a'']) demo_cfg ''https://ex.com/b'' =
     Inr \<lparr>data = [(''Title'', ''Item https://ex.com/b''), (''Phone'', ''555'')]\<rparr>"
    by code_simp
  have sc: "scraped (trace (snd (scrape_all_run demo_lib demo_listing (demo_detail [''https://ex.com/a'']) demo_cfg))) =
     [''https://ex.com/a'', ''https://ex.com/b'', ''https://ex.com/s'', ''https://ex.com/c'',
      ''https://ex.com/d'']"
    by code_simp
  have wa: "warned (trace (snd (scrape_all_run demo_lib demo_listing (demo_detail [''https://ex.com/a'']) demo_cfg))) =
     [(''https://ex.com/a'', ''TimeoutException'')]"
    by code_simp
  have nf: "\<forall>u e. fetch_links demo_lib demo_listing demo_cfg u \<noteq> Inl e"
    by (simp add: fetch_links_def demo_listing_def split: option.splits)
  have al: "scrape_all demo_lib demo_listing (demo_detail [''https://ex.com/a'']) demo_cfg =
     Inr [\<lparr>data = [(''Title'', ''Item https://ex.com/b''), (''Phone'', ''555'')]\<rparr>,
          \<lparr>data = [(''Title'', ''Item https://ex.com/s''), (''Phone'', ''555'')]\<rparr>,
          \<lparr>data = [(''Title'', ''Item https://ex.com/c''), (''Phone'', ''555'')]\<rparr>,
          \<lparr>data = [(''Title'', ''Item https://ex.com/d''), (''Phone'', ''555'')]\<rparr>]"
    by code_simp
  have l2: "scrape_all demo_lib demo_listing (demo_detail [''https://ex.com/a'']) (demo_cfg\<lparr>limit := Some 2\<rparr>) =
     Inr [\<lparr>data = [(''Title'', ''Item https://ex.com/b''), (''Phone'', ''555'')]\<rparr>,
          \<lparr>data = [(''Title'', ''Item https://ex.com/s''), (''Phone'', ''555'')]\<rparr>]"
    by code_simp
  have il: "ice_site_links demo_ice_listing demo_start 200 =
     [''https://ice.gov/detention-facility/a'', ''https://ice.gov/detention-facility/b'',
      ''https://ice.gov/detention-facility/a'', ''https://ice.gov/detention-facility/c'']"
    by code_simp
  have ia: "ice_scrape_all (Inr demo_start) demo_ice_listing (demo_extract [''https://ice.gov/detention-facility/a'']) None None 200 =
     Inr [\<lparr>facility_name = ''https://ice.gov/detention-facility/b'', field_office_name = [],
            facility_address = [], state = [], facility_phone = [], facility_email = [],
            field_office_phone = []\<rparr>,
          \<lparr>facility_name = ''https://ice.gov/detention-facility/c'', field_office_name = [],
            facility_address = [], state = [], facility_phone = [], facility_email = [],
            field_office_phone = []\<rparr>]"
    by code_simp
  have iw: "warned (trace (snd (ice_scrape_all_run (Inr demo_start) demo_ice_listing
                         (demo_extract [''https://ice.gov/detention-facility/a'']) None None 200))) =
     [(''https://ice.gov/detention-facility/a'', ''TimeoutException'')]"
    by code_simp
  have iv: "ice_scrape_all (Inr demo_start) demo_ice_listing (demo_extract [''https://ice.gov/detention-facility/a''])
     (Some ''ValueError'') None 200 =
     Inr [\<lparr>facility_name = ''https://ice.gov/detention-facility/b'', field_office_name = [],
            facility_address = [], state = [], facility_phone = [], facility_email = [],
            field_office_phone = []\<rparr>,
          \<lparr>facility_name = ''https://ice.gov/detention-facility/c'', field_office_name = [],
            facility_address = [], state = [], facility_phone = [], facility_email = [],
            field_office_phone = []\<rparr>]"
    by code_simp
  have ip: "warned (trace (snd (ice_scrape_all_run (Inr demo_start) demo_ice_listing
                         (demo_extract [''https://ice.gov/detention-facility/a'']) (Some ''ValueError'') None 200))) =
     [(''https://ice.gov/detention-facility/a'', ''TimeoutException''),
      (''https://ice.gov/detention-facility/b'', ''ValueError''),
      (''https://ice.gov/detention-facility/c'', ''ValueError'')]"
    by code_simp
  have ie: "ice_scrape_all (Inr demo_start) (\<lambda>u. Inl ''WebDriverException'')
     (demo_extract [''https://ice.gov/detention-facility/a'']) None None 200 =
     Inl ''WebDriverException''"
    by code_simp
  show ?thesis
    using C5_detail_failure_is_isolated[of demo_lib demo_listing demo_cfg
            "demo_detail [''https://ex.com/a'']" demo_ice_listing "demo_extract [''https://ice.gov/detention-facility/a'']"
            "Some ''ValueError''" None demo_start 200]
          sl ra rb sc wa nf al l2 il ia iw iv ip ie
    by simp
qed

text \<open>
  C6. A listing page that yields no links ends the run as \<open>Exhausted\<close>: it is the last
  page requested, so no page with a higher index is requested after it; and a run ends as
  \<open>Exhausted\<close> only on such a page.
\<close>

theorem C6_empty_page_exhausts:
  "exhausts (list_url (start_url cfg) (page_param cfg)) (fetch_links L get_listing cfg)
     (scrape_all_run L get_listing get_detail cfg) \<and>
   exhausts (ice_list_url (set_or_remove_page current_url None)) (ice_fetch_links ice_listing)
     (ice_scrape_all_run (Inr current_url) ice_listing extract_facility_page slept lim maxp)"
  unfolding scrape_all_run_def ice_run_opened by (simp add: exhausts_pages)

theorem C6_witness:
  "exhausts (list_url (start_url demo_cfg) (page_param demo_cfg))
     (fetch_links demo_lib demo_listing demo_cfg)
     (scrape_all_run demo_lib demo_listing (demo_detail []) demo_cfg) \<and>
   listed (trace (snd (scrape_all_run demo_lib demo_listing (demo_detail []) demo_cfg))) = [0, 1, 2] \<and>
   fetch_links demo_lib demo_listing demo_cfg (list_url (start_url demo_cfg) (page_param demo_cfg) 2)
     = Inr [] \<and>
   fst (scrape_all_run demo_lib demo_listing (demo_detail []) demo_cfg) = Exhausted \<and>
   max_pages demo_cfg = 200"
proof -
  have "listed (trace (snd (scrape_all_run demo_lib demo_listing (demo_detail []) demo_cfg))) = [0, 1, 2]"
    by code_simp
  moreover have "fetch_links demo_lib demo_listing demo_cfg
                   (list_url (start_url demo_cfg) (page_param demo_cfg) 2) = Inr []"
    by code_simp
  moreover have "max_pages demo_cfg = 200" by code_simp
  ultimately show ?thesis
    using C6_empty_page_exhausts[of demo_cfg demo_lib demo_listing "demo_detail []"]
    by (simp add: exhausts_def)
qed

text \<open>
  C7, as the claim states it, fails when the start index is above the page cap: the loop
  condition is tested once with \<open>page_idx = 5\<close> against the cap 3, and the run returns
  without requesting a page.
\<close>

theorem C7_counterexample:
  "cursors (trace (snd (scrape_all_run demo_lib demo_listing (demo_detail [])
                          (demo_cfg\<lparr>page_start := 5, max_pages := 3\<rparr>)))) = [5] \<and>
   max_pages (demo_cfg\<lparr>page_start := 5, max_pages := 3\<rparr>) = 3 \<and>
   scrape_all demo_lib demo_listing (demo_detail []) (demo_cfg\<lparr>page_start := 5, max_pages := 3\<rparr>)
     = Inr []"
  by code_simp

text \<open>
  C7, amended. In every run the values of \<open>page_idx\<close> go up one by one from the start
  index, so the cursor never decreases; when the start index is at most the page cap, the
  cursor never exceeds the cap, and in every run each listing page requested has an index
  below the cap; the run ends as \<open>Capped\<close> exactly when the loop condition fails, that
  is with the cursor at or above the cap; and when every page from the start index to the
  cap yields links, the run ends as \<open>Capped\<close> and not as \<open>Exhausted\<close>, unless an item
  limit ends it first.
\<close>

theorem C7_cursor_amended:
  "cursor_bounded (list_url (start_url cfg) (page_param cfg)) (fetch_links L get_listing cfg)
     (limit cfg) (page_start cfg) (max_pages cfg) (scrape_all_run L get_listing get_detail cfg) \<and>
   cursor_bounded (ice_list_url (set_or_remove_page current_url None)) (ice_fetch_links ice_listing)
     lim 0 maxp (ice_scrape_all_run (Inr current_url) ice_listing extract_facility_page slept lim maxp)"
  unfolding scrape_all_run_def ice_run_opened by (simp add: cursor_bounded_pages)

theorem C7_witness:
  "cursor_bounded (list_url (start_url (demo_cfg\<lparr>max_pages := 2\<rparr>)) (page_param (demo_cfg\<lparr>max_pages := 2\<rparr>)))
     (fetch_links demo_lib demo_listing (demo_cfg\<lparr>max_pages := 2\<rparr>))
     (limit (demo_cfg\<lparr>max_pages := 2\<rparr>)) (page_start (demo_cfg\<lparr>max_pages := 2\<rparr>))
     (max_pages (demo_cfg\<lparr>max_pages := 2\<rparr>))
     (scrape_all_run demo_lib demo_listing (demo_detail []) (demo_cfg\<lparr>max_pages := 2\<rparr>)) \<and>
   page_start (demo_cfg\<lparr>max_pages := 2\<rparr>) \<le> max_pages (demo_cfg\<lparr>max_pages := 2\<rparr>) \<and>
   list_all (\<lambda>i. has_links (fetch_links demo_lib demo_listing (demo_cfg\<lparr>max_pages := 2\<rparr>))
                    (list_url (start_url demo_cfg) (page_param demo_cfg) i)) [0..1] \<and>
   limit (demo_cfg\<lparr>max_pages := 2\<rparr>) = None \<and>
   cursors (trace (snd (scrape_all_run demo_lib demo_listing (demo_detail [])
                          (demo_cfg\<lparr>max_pages := 2\<rparr>)))) = [0, 1, 2] \<and>
   listed (trace (snd (scrape_all_run demo_lib demo_listing (demo_detail [])
                          (demo_cfg\<lparr>max_pages := 2\<rparr>)))) = [0, 1] \<and>
   fst (scrape_all_run demo_lib demo_listing (demo_detail []) (demo_cfg\<lparr>max_pages := 2\<rparr>)) = Capped"
proof -
  have "page_start (demo_cfg\<lparr>max_pages := 2\<rparr>) \<le> max_pages (demo_cfg\<lparr>max_pages := 2\<rparr>)"
    by code_simp
  moreover have "list_all (\<lambda>i. has_links (fetch_links demo_lib demo_listing (demo_cfg\<lparr>max_pages := 2\<rparr>))
                    (list_url (start_url demo_cfg) (page_param demo_cfg) i)) [0..1]"
    by code_simp
  moreover have "limit (demo_cfg\<lparr>max_pages := 2\<rparr>) = None" by code_simp
  moreover have "cursors (trace (snd (scrape_all_run demo_lib demo_listing (demo_detail [])
                          (demo_cfg\<lparr>max_pages := 2\<rparr>)))) = [0, 1, 2]"
    by code_simp
  moreover have "listed (trace (snd (scrape_all_run demo_lib demo_listing (demo_detail [])
                          (demo_cfg\<lparr>max_pages := 2\<rparr>)))) = [0, 1]"
    by code_simp
  moreover have "fst (scrape_all_run demo_lib demo_listing (demo_detail []) (demo_cfg\<lparr>max_pages := 2\<rparr>)) = Capped"
    by code_simp
  ultimately show ?thesis
    using C7_cursor_amended[of "demo_cfg\<lparr>max_pages := 2\<rparr>" demo_lib demo_listing "demo_detail []"]
    by simp
qed

text \<open>
  C8. A row that \<open>scrape_detail\<close> returns has exactly the configured field names as
  keys, each once and each with a string as its value; with the field names of the
  configuration (a dict, so without duplicates) the keys come in the configured order and
  each value is what the extractor gives for the specs of that field.
\<close>

theorem C8_record_has_configured_keys:
  "scrape_detail L load url fs = Inr r \<Longrightarrow>
     set (map fst (data r)) = set (map fst fs) \<and>
     distinct (map fst (data r)) \<and>
     (\<forall>k\<in>set (map fst fs). \<exists>v. map_of (data r) k = Some v) \<and>
     (distinct (map fst fs) \<longrightarrow>
        map fst (data r) = map fst fs \<and>
        (\<forall>(k, specs)\<in>set fs.
           \<exists>drv. load url = Inr drv \<and> map_of (data r) k = Some (extract_with_specs L drv specs)))"
proof -
  assume a: "scrape_detail L load url fs = Inr r"
  then obtain drv where drv: "load url = Inr drv"
    and d: "data r = fold (\<lambda>(field_name, spec_list) d.
                 AList.update field_name (extract_with_specs L drv spec_list) d) fs []"
    by (auto simp: scrape_detail_def split: sum.splits)
  have k: "set (map fst (data r)) = set (map fst fs)"
    unfolding d using fold_update_keys[of "extract_with_specs L drv" fs "[]"] by simp
  have di: "distinct (map fst (data r))"
    unfolding d using fold_update_distinct[of "[]" "extract_with_specs L drv" fs] by simp
  have v: "\<forall>k\<in>set (map fst fs). \<exists>v. map_of (data r) k = Some v"
  proof
    fix k assume "k \<in> set (map fst fs)"
    then have "k \<in> fst ` set (data r)" using k by simp
    then show "\<exists>v. map_of (data r) k = Some v"
      by (metis map_of_eq_None_iff not_Some_eq)
  qed
  have o: "map fst (data r) = map fst fs \<and>
        (\<forall>(k, specs)\<in>set fs.
           \<exists>drv. load url = Inr drv \<and> map_of (data r) k = Some (extract_with_specs L drv specs))"
    if dk: "distinct (map fst fs)"
  proof -
    have "map fst (data r) = map fst fs"
      unfolding d using fold_update_order[OF dk, of "[]" "extract_with_specs L drv"] by simp
    moreover have "map_of (data r) k = Some (extract_with_specs L drv specs)"
      if "(k, specs) \<in> set fs" for k specs
      unfolding d using fold_update_lookup[OF dk that, of "extract_with_specs L drv" "[]"] .
    ultimately show ?thesis using drv by auto
  qed
  show ?thesis using k di v o by blast
qed

theorem C8_witness:
  "scrape_detail demo_lib (demo_detail []) ''https://ex.com/b'' (field_specs demo_cfg) =
     Inr \<lparr>data = [(''Title'', ''Item https://ex.com/b''), (''Phone'', ''555'')]\<rparr> \<and>
   map fst (field_specs demo_cfg) = [''Title'', ''Phone''] \<and>
   distinct (map fst (field_specs demo_cfg)) \<and>
   set (map fst (data \<lparr>data = [(''Title'', ''Item https://ex.com/b''), (''Phone'', ''555'')]\<rparr>)) =
     set (map fst (field_specs demo_cfg)) \<and>
   scrape_detail demo_lib (demo_detail []) ''https://ex.com/b''
     [(''Title'', [spec_of (ElementText ''.none'')])] = Inr \<lparr>data = [(''Title'', [])]\<rparr>"
proof -
  have e: "scrape_detail demo_lib (demo_detail []) ''https://ex.com/b'' (field_specs demo_cfg) =
     Inr \<lparr>data = [(''Title'', ''Item https://ex.com/b''), (''Phone'', ''555'')]\<rparr>"
    by code_simp
  have f: "map fst (field_specs demo_cfg) = [''Title'', ''Phone'']" by code_simp
  have g: "scrape_detail demo_lib (demo_detail []) ''https://ex.com/b''
     [(''Title'', [spec_of (ElementText ''.none'')])] = Inr \<lparr>data = [(''Title'', [])]\<rparr>"
    by code_simp
  have d: "distinct (map fst (field_specs demo_cfg))" by (simp add: f)
  from C8_record_has_configured_keys[OF e]
  have "set (map fst (data \<lparr>data = [(''Title'', ''Item https://ex.com/b''), (''Phone'', ''555'')]\<rparr>)) =
     set (map fst (field_specs demo_cfg))"
    by blast
  with e f g d show ?thesis by blast
qed

text \<open>
  C9, as the claim states it, fails: the links returned need not be absolute URLs.
  \<open>_ensure_absolute\<close> returns the href as it is when the join with the base URL raises,
  and the ICE collector does not resolve an href at all. On a page whose anchors have the
  hrefs \<open>//[bad/x\<close> and \<open>/a\<close>, with a join that raises on the first,
  \<open>collect_links\<close> returns the first unchanged; on a page whose anchor has the href
  \<open>/detention-facility/a?x=1\<close> the ICE collector returns \<open>/detention-facility/a\<close>.
\<close>

theorem C9_counterexample:
  "urljoin strict_lib ''https://ex.com'' ''//[bad/x'' = Inl ''ValueError'' \<and>
   collect_links strict_lib bad_href_page ''https://ex.com'' [''a.item''] =
     [''//[bad/x'', ''https://ex.com/a''] \<and>
   \<not> spec_is_absolute ''//[bad/x'' \<and>
   spec_is_absolute ''https://ex.com/a'' \<and>
   collect_facility_links_on_current_page bad_href_page = Inr [''/detention-facility/a''] \<and>
   \<not> spec_is_absolute ''/detention-facility/a''"
proof -
  have "urljoin strict_lib ''https://ex.com'' ''//[bad/x'' = Inl ''ValueError''"
    by code_simp
  moreover have "collect_links strict_lib bad_href_page ''https://ex.com'' [''a.item''] =
     [''//[bad/x'', ''https://ex.com/a'']"
    by code_simp
  moreover have "\<not> spec_is_absolute ''//[bad/x''" by code_simp
  moreover have "spec_is_absolute ''https://ex.com/a''" by code_simp
  moreover have "collect_facility_links_on_current_page bad_href_page =
     Inr [''/detention-facility/a'']"
    by code_simp
  moreover have "\<not> spec_is_absolute ''/detention-facility/a''" by code_simp
  ultimately show ?thesis by blast
qed

text \<open>
  C9, amended. \<open>collect_links\<close> returns a list without duplicates, in ascending order, of
  exactly the URLs that the hrefs of the page give: for each element that some selector
  matches and that has a non-empty href, the join of the base URL with the href when the
  join returns, and the href itself when the join raises; elements whose href is absent
  or empty add nothing. The result depends only on the set of selectors, not on their
  order or how often a link is matched. Its URLs are all absolute exactly when each join
  that returns gives an absolute URL and each href whose join raises is absolute itself.
  The ICE collector raises only when the page has neither a listing container nor a body;
  otherwise it returns a list without duplicates, in ascending order, of exactly the
  hrefs, cut before the first \<open>?\<close> and not resolved against any base, of the anchors
  that one of its patterns matches inside the containers (inside the body when there is
  no container), as far as the cut href is not empty and contains \<open>/detention\<close>.
\<close>

theorem C9_links_amended:
  "distinct (collect_links L drv base sels) \<and>
   sorted (collect_links L drv base sels) \<and>
   set (collect_links L drv base sels) =
     {ensure_absolute L h base | h sel a.
        sel \<in> set sels \<and> a \<in> set (drv (CSS_SELECTOR sel)) \<and>
        get_attribute a ''href'' = Some h \<and> h \<noteq> []} \<and>
   (\<forall>u. (u \<in> set (collect_links L drv base sels)) =
        (\<exists>h sel a. sel \<in> set sels \<and> a \<in> set (drv (CSS_SELECTOR sel)) \<and>
                   get_attribute a ''href'' = Some h \<and> h \<noteq> [] \<and>
                   (urljoin L base h = Inr u \<or> (\<exists>e. urljoin L base h = Inl e) \<and> u = h))) \<and>
   (set sels' = set sels \<longrightarrow> collect_links L drv base sels' = collect_links L drv base sels) \<and>
   ((\<forall>u\<in>set (collect_links L drv base sels). spec_is_absolute u) =
      (\<forall>sel\<in>set sels. \<forall>a\<in>set (drv (CSS_SELECTOR sel)). \<forall>h.
         get_attribute a ''href'' = Some h \<and> h \<noteq> [] \<longrightarrow>
         (case urljoin L base h of
            Inr u \<Rightarrow> spec_is_absolute u
          | Inl e \<Rightarrow> spec_is_absolute h))) \<and>
   (case ice_containers ice_drv of
      Inl e \<Rightarrow> collect_facility_links_on_current_page ice_drv = Inl e
    | Inr cs \<Rightarrow>
        (\<exists>ls. collect_facility_links_on_current_page ice_drv = Inr ls \<and> distinct ls \<and> sorted ls \<and>
              set ls =
                {before_query (case get_attribute a ''href'' of None \<Rightarrow> [] | Some v \<Rightarrow> v) | a c sel.
                   c \<in> set cs \<and> sel \<in> set ice_patterns \<and> a \<in> set (find_elements_in c sel) \<and>
                   before_query (case get_attribute a ''href'' of None \<Rightarrow> [] | Some v \<Rightarrow> v) \<noteq> [] \<and>
                   contains (before_query (case get_attribute a ''href'' of None \<Rightarrow> [] | Some v \<Rightarrow> v))
                            ''/detention''}))"
proof -
  have s: "set (collect_links L drv base sels) =
     {ensure_absolute L h base | h sel a.
        sel \<in> set sels \<and> a \<in> set (drv (CSS_SELECTOR sel)) \<and>
        get_attribute a ''href'' = Some h \<and> h \<noteq> []}" for sels
  proof -
    have "set (collect_links L drv base sels) =
          set (concat (map (links_of_selector L drv base) sels))"
      unfolding collect_links_def by (rule set_sorted_list_of_set) (rule finite_set)
    then show ?thesis by (auto simp: links_of_selector_set)
  qed
  have j: "(urljoin L base h = Inr u \<or> (\<exists>e. urljoin L base h = Inl e) \<and> u = h) =
           (u = ensure_absolute L h base)" for h u
    by (cases "urljoin L base h") (auto simp: ensure_absolute_def)
  have m: "\<forall>u. (u \<in> set (collect_links L drv base sels)) =
        (\<exists>h sel a. sel \<in> set sels \<and> a \<in> set (drv (CSS_SELECTOR sel)) \<and>
                   get_attribute a ''href'' = Some h \<and> h \<noteq> [] \<and>
                   (urljoin L base h = Inr u \<or> (\<exists>e. urljoin L base h = Inl e) \<and> u = h))"
    unfolding s j by blast
  have e: "collect_links L drv base sels' = collect_links L drv base sels" if "set sels' = set sels"
  proof -
    have "set (concat (map (links_of_selector L drv base) sels')) =
          set (concat (map (links_of_selector L drv base) sels))"
      using that by simp
    then show ?thesis by (simp only: collect_links_def)
  qed
  have k: "(case urljoin L base h of Inr u \<Rightarrow> spec_is_absolute u | Inl e \<Rightarrow> spec_is_absolute h) =
           spec_is_absolute (ensure_absolute L h base)" for h
    by (simp add: ensure_absolute_def split: sum.splits)
  have a: "(\<forall>u\<in>set (collect_links L drv base sels). spec_is_absolute u) =
      (\<forall>sel\<in>set sels. \<forall>a\<in>set (drv (CSS_SELECTOR sel)). \<forall>h.
         get_attribute a ''href'' = Some h \<and> h \<noteq> [] \<longrightarrow>
         (case urljoin L base h of
            Inr u \<Rightarrow> spec_is_absolute u
          | Inl e \<Rightarrow> spec_is_absolute h))"
    unfolding s k by blast
  have d: "distinct (collect_links L drv base sels)" "sorted (collect_links L drv base sels)"
    unfolding collect_links_def
    by (rule distinct_sorted_list_of_set, rule sorted_sorted_list_of_set)
  have i: "case ice_containers ice_drv of
      Inl e \<Rightarrow> collect_facility_links_on_current_page ice_drv = Inl e
    | Inr cs \<Rightarrow>
        (\<exists>ls. collect_facility_links_on_current_page ice_drv = Inr ls \<and> distinct ls \<and> sorted ls \<and>
              set ls =
                {before_query (case get_attribute a ''href'' of None \<Rightarrow> [] | Some v \<Rightarrow> v) | a c sel.
                   c \<in> set cs \<and> sel \<in> set ice_patterns \<and> a \<in> set (find_elements_in c sel) \<and>
                   before_query (case get_attribute a ''href'' of None \<Rightarrow> [] | Some v \<Rightarrow> v) \<noteq> [] \<and>
                   contains (before_query (case get_attribute a ''href'' of None \<Rightarrow> [] | Some v \<Rightarrow> v))
                            ''/detention''})"
    by (rule ice_collect_exact)
  show ?thesis
  proof (intro conjI)
    show "distinct (collect_links L drv base sels)" by (rule d(1))
    show "sorted (collect_links L drv base sels)" by (rule d(2))
    show "set (collect_links L drv base sels) =
     {ensure_absolute L h base | h sel a.
        sel \<in> set sels \<and> a \<in> set (drv (CSS_SELECTOR sel)) \<and>
        get_attribute a ''href'' = Some h \<and> h \<noteq> []}" by (rule s)
    show "\<forall>u. (u \<in> set (collect_links L drv base sels)) =
        (\<exists>h sel a. sel \<in> set sels \<and> a \<in> set (drv (CSS_SELECTOR sel)) \<and>
                   get_attribute a ''href'' = Some h \<and> h \<noteq> [] \<and>
                   (urljoin L base h = Inr u \<or> (\<exists>e. urljoin L base h = Inl e) \<and> u = h))" by (rule m)
    show "set sels' = set sels \<longrightarrow> collect_links L drv base sels' = collect_links L drv base sels"
      using e by blast
    show "(\<forall>u\<in>set (collect_links L drv base sels). spec_is_absolute u) =
      (\<forall>sel\<in>set sels. \<forall>a\<in>set (drv (CSS_SELECTOR sel)). \<forall>h.
         get_attribute a ''href'' = Some h \<and> h \<noteq> [] \<longrightarrow>
         (case urljoin L base h of
            Inr u \<Rightarrow> spec_is_absolute u
          | Inl e \<Rightarrow> spec_is_absolute h))" by (rule a)
    show "case ice_containers ice_drv of
      Inl e \<Rightarrow> collect_facility_links_on_current_page ice_drv = Inl e
    | Inr cs \<Rightarrow>
        (\<exists>ls. collect_facility_links_on_current_page ice_drv = Inr ls \<and> distinct ls \<and> sorted ls \<and>
              set ls =
                {before_query (case get_attribute a ''href'' of None \<Rightarrow> [] | Some v \<Rightarrow> v) | a c sel.
                   c \<in> set cs \<and> sel \<in> set ice_patterns \<and> a \<in> set (find_elements_in c sel) \<and>
                   before_query (case get_attribute a ''href'' of None \<Rightarrow> [] | Some v \<Rightarrow> v) \<noteq> [] \<and>
                   contains (before_query (case get_attribute a ''href'' of None \<Rightarrow> [] | Some v \<Rightarrow> v))
                            ''/detention''})" by (rule i)
  qed
qed

theorem C9_witness:
  "collect_links demo_lib demo_page0 ''https://ex.com'' [''a.more'', ''a.item''] =
     [''https://ex.com/a'', ''https://ex.com/b'', ''https://ex.com/s''] \<and>
   map (\<lambda>a. get_attribute a ''href'') (demo_page0 (CSS_SELECTOR ''a.item'')) =
     [Some ''/b'', Some ''/a'', None, Some [], Some ''/s''] \<and>
   map (\<lambda>a. get_attribute a ''href'') (demo_page0 (CSS_SELECTOR ''a.more'')) = [Some ''/a''] \<and>
   collect_links demo_lib demo_page0 ''https://ex.com'' [''a.item'', ''a.more'', ''a.item''] =
     collect_links demo_lib demo_page0 ''https://ex.com'' [''a.more'', ''a.item''] \<and>
   list_all (\<lambda>h. case urljoin demo_lib ''https://ex.com'' h of
                    Inr u \<Rightarrow> spec_is_absolute u
                  | Inl e \<Rightarrow> spec_is_absolute h) [''/b'', ''/a'', ''/s''] \<and>
   list_all spec_is_absolute
     (collect_links demo_lib demo_page0 ''https://ex.com'' [''a.more'', ''a.item'']) \<and>
   ice_fetch_links demo_ice_listing demo_start =
     Inr [''https://ice.gov/detention-facility/a'', ''https://ice.gov/detention-facility/b'']"
proof -
  have v: "collect_links demo_lib demo_page0 ''https://ex.com'' [''a.more'', ''a.item''] =
     [''https://ex.com/a'', ''https://ex.com/b'', ''https://ex.com/s'']"
    by code_simp
  have h1: "map (\<lambda>a. get_attribute a ''href'') (demo_page0 (CSS_SELECTOR ''a.item'')) =
     [Some ''/b'', Some ''/a'', None, Some [], Some ''/s'']"
    by code_simp
  have h2: "map (\<lambda>a. get_attribute a ''href'') (demo_page0 (CSS_SELECTOR ''a.more'')) = [Some ''/a'']"
    by code_simp
  have j: "list_all (\<lambda>h. case urljoin demo_lib ''https://ex.com'' h of
                    Inr u \<Rightarrow> spec_is_absolute u
                  | Inl e \<Rightarrow> spec_is_absolute h) [''/b'', ''/a'', ''/s'']"
    by code_simp
  have f: "ice_fetch_links demo_ice_listing demo_start =
     Inr [''https://ice.gov/detention-facility/a'', ''https://ice.gov/detention-facility/b'']"
    by code_simp
  have p: "set [''a.item'', ''a.more'', ''a.item''] = set [''a.more'', ''a.item'']" by auto
  note c9 = C9_links_amended[of demo_lib demo_page0 "''https://ex.com''"
              "[''a.more'', ''a.item'']" "[''a.item'', ''a.more'', ''a.item'']"]
  from c9 p have q: "collect_links demo_lib demo_page0 ''https://ex.com'' [''a.item'', ''a.more'', ''a.item''] =
     collect_links demo_lib demo_page0 ''https://ex.com'' [''a.more'', ''a.item'']"
    by blast
  have "\<forall>sel\<in>set [''a.more'', ''a.item'']. \<forall>a\<in>set (demo_page0 (CSS_SELECTOR sel)). \<forall>h.
          get_attribute a ''href'' = Some h \<and> h \<noteq> [] \<longrightarrow>
          (case urljoin demo_lib ''https://ex.com'' h of
             Inr u \<Rightarrow> spec_is_absolute u
           | Inl e \<Rightarrow> spec_is_absolute h)"
    using j by (auto simp: demo_page0_def anchor_def)
  with c9 have "\<forall>u\<in>set (collect_links demo_lib demo_page0 ''https://ex.com'' [''a.more'', ''a.item'']).
                    spec_is_absolute u"
    by blast
  then have r: "list_all spec_is_absolute
     (collect_links demo_lib demo_page0 ''https://ex.com'' [''a.more'', ''a.item''])"
    by (simp add: list_all_iff)
  show ?thesis using v h1 h2 q j r f by blast
qed

text \<open>
  C10. With the item limit 0 the guard \<open>limit and len(rows) >= limit\<close> is never true:
  a run of either scraper with limit 0 is the run with no limit, and gives the same rows.
  On the small site it gives all five rows.
\<close>

theorem C10_limit_zero_is_no_limit:
  "scrape_all_run L get_listing get_detail (cfg\<lparr>limit := Some 0\<rparr>) =
     scrape_all_run L get_listing get_detail (cfg\<lparr>limit := None\<rparr>) \<and>
   scrape_all L get_listing get_detail (cfg\<lparr>limit := Some 0\<rparr>) =
     scrape_all L get_listing get_detail (cfg\<lparr>limit := None\<rparr>) \<and>
   ice_scrape_all_run opened ice_listing extract_facility_page slept (Some 0) maxp =
     ice_scrape_all_run opened ice_listing extract_facility_page slept None maxp \<and>
   ice_scrape_all opened ice_listing extract_facility_page slept (Some 0) maxp =
     ice_scrape_all opened ice_listing extract_facility_page slept None maxp"
  by (simp add: scrape_all_def scrape_all_run_def ice_scrape_all_def ice_scrape_all_run_def
                scrape_pages_zero Let_def split: sum.splits)

theorem C10_witness:
  "scrape_all demo_lib demo_listing (demo_detail []) (demo_cfg\<lparr>limit := Some 0\<rparr>) =
     scrape_all demo_lib demo_listing (demo_detail []) (demo_cfg\<lparr>limit := None\<rparr>) \<and>
   map_sum id length (scrape_all demo_lib demo_listing (demo_detail []) (demo_cfg\<lparr>limit := Some 0\<rparr>))
     = Inr 5"
proof -
  have "map_sum id length (scrape_all demo_lib demo_listing (demo_detail []) (demo_cfg\<lparr>limit := Some 0\<rparr>))
     = Inr 5"
    by code_simp
  then show ?thesis
    using C10_limit_zero_is_no_limit[of demo_lib demo_listing "demo_detail []" demo_cfg]
    by simp
qed

end
